theory Spec2Isabelle
  imports Complex_Main "HOL-Library.Log_Nat"
begin

section \<open>Data model (src/lib/analysis/orchestrator.ts, types)\<close>

text \<open>
  Results of modules are JavaScript values of type \<open>unknown\<close>; \<open>JUndefined\<close> is what
  \<open>Map.get\<close> returns for a key that is not there and what an optional field holds when
  it is absent.
\<close>

datatype js_value =
    JUndefined
  | JNull
  | JBool bool
  | JNumber int
  | JString string
  | JArray "js_value list"
  | JObject "(string \<times> js_value) list"

record analysis_options =
  maxDepth :: int
  respectRobotsTxt :: bool
  includeExternalLinks :: bool
  performanceRuns :: int

text \<open>
  The context passed to every module. The logger and the cache handle that
  \<open>executeAnalysis\<close> attaches hold no data that the orchestrator reads back, so the
  record keeps the fields the orchestrator itself writes or reads.
\<close>

record analysis_context =
  url :: string
  options :: analysis_options
  crawlResults :: js_value

text \<open>
  A value that a module throws, or rejects its promise with, can be any JavaScript
  value. The orchestrator does one thing with it, in both of its catch blocks: it
  evaluates \<open>error instanceof Error ? error : new Error(String(error))\<close>. The value is
  modelled by what that expression does with it. \<open>ErrorObject msg\<close> is an instance of
  \<open>Error\<close> with the message \<open>msg\<close>, which the expression returns as it is.
  \<open>Convertible s\<close> is any other value that \<open>String\<close> converts, into \<open>s\<close>, so that
  the expression returns a new \<open>Error\<close> with the message \<open>s\<close>. \<open>Inconvertible v\<close> is a
  value on which the expression throws, and \<open>v\<close> is what it throws: on
  \<open>Object.create(null)\<close>, which has neither \<open>toString\<close> nor \<open>valueOf\<close>, \<open>String\<close> throws
  a \<open>TypeError\<close>; on an object whose \<open>toString\<close> throws, the value thrown there.
\<close>

datatype thrown =
    ErrorObject string
  | Convertible string
  | Inconvertible thrown

text \<open>
  \<open>execute(context)\<close> returns a promise: \<open>Inr result\<close> when it resolves, \<open>Inl v\<close> when it
  rejects with the value \<open>v\<close>. What a module does besides is outside the model: a
  module is taken to act on the orchestrator and on the context through its result only.
\<close>

type_synonym execute_fn = "analysis_context \<Rightarrow> thrown + js_value"

record analysis_module =
  name :: string
  phase :: string
  dependencies :: "string list"
  execute :: execute_fn

text \<open>
  \<open>registerModule\<close> checks its argument at run time, so the argument is modelled as
  the untyped object a JavaScript caller can pass: each field is any value.
  Arrays hold strings, as the declared type \<open>string[]\<close> says; \<open>registerModule\<close> does
  not look at the elements.
\<close>

datatype field =
    FUndefined
  | FNull
  | FBool bool
  | FNumber int
  | FString string
  | FArray "string list"
  | FFunction execute_fn
  | FObject

record raw_module =
  raw_name :: field
  raw_phase :: field
  raw_dependencies :: field
  raw_execute :: field

fun truthy :: "field \<Rightarrow> bool" where
  "truthy FUndefined = False"
| "truthy FNull = False"
| "truthy (FBool b) = b"
| "truthy (FNumber n) = (n \<noteq> 0)"
| "truthy (FString s) = (s \<noteq> [])"
| "truthy (FArray xs) = True"
| "truthy (FFunction f) = True"
| "truthy FObject = True"

fun typeof :: "field \<Rightarrow> string" where
  "typeof FUndefined = ''undefined''"
| "typeof FNull = ''object''"
| "typeof (FBool b) = ''boolean''"
| "typeof (FNumber n) = ''number''"
| "typeof (FString s) = ''string''"
| "typeof (FArray xs) = ''object''"
| "typeof (FFunction f) = ''function''"
| "typeof FObject = ''object''"

fun isArray :: "field \<Rightarrow> bool" where
  "isArray (FArray xs) = True"
| "isArray _ = False"

datatype orchestrator_error =
    DuplicateModule string
  | InvalidName
  | InvalidPhase string
  | InvalidDependencies string
  | InvalidExecute string
  | CircularDependency string
  | ModuleNotFound string
  | MissingDependency string string

definition quoted :: "string \<Rightarrow> string" where
  "quoted s = [CHR 0x22] @ s @ [CHR 0x22]"

fun error_message :: "orchestrator_error \<Rightarrow> string" where
  "error_message (DuplicateModule n) =
     ''Module with name '' @ quoted n @ '' is already registered''"
| "error_message InvalidName = ''Module must have a valid name''"
| "error_message (InvalidPhase n) = ''Module '' @ quoted n @ '' must have a valid phase''"
| "error_message (InvalidDependencies n) =
     ''Module '' @ quoted n @ '' must have a dependencies array''"
| "error_message (InvalidExecute n) =
     ''Module '' @ quoted n @ '' must have an execute method''"
| "error_message (CircularDependency n) =
     ''Circular dependency detected involving module '' @ quoted n"
| "error_message (ModuleNotFound n) = ''Module '' @ quoted n @ '' not found''"
| "error_message (MissingDependency n d) =
     ''Module '' @ quoted n @ '' depends on '' @ quoted d @ '' which is not registered''"

section \<open>The module registry\<close>

text \<open>
  \<open>this.modules\<close> is a \<open>Map<string, AnalysisModule>\<close>: an association list in insertion
  order, which is the order \<open>Array.from(this.modules.values())\<close> yields.
\<close>

type_synonym registry = "(string \<times> analysis_module) list"

definition modules_has :: "registry \<Rightarrow> string \<Rightarrow> bool" where
  "modules_has reg k = (k \<in> fst ` set reg)"

text \<open>\<open>this.modules.has(module.name)\<close> on the unchecked field: only a string can be a key.\<close>

fun has_field :: "registry \<Rightarrow> field \<Rightarrow> bool" where
  "has_field reg (FString s) = modules_has reg s"
| "has_field reg _ = False"

fun string_of :: "field \<Rightarrow> string" where
  "string_of (FString s) = s"
| "string_of _ = []"

fun array_of :: "field \<Rightarrow> string list" where
  "array_of (FArray xs) = xs"
| "array_of _ = []"

fun function_of :: "field \<Rightarrow> execute_fn" where
  "function_of (FFunction f) = f"
| "function_of _ = (\<lambda>c. Inl (ErrorObject []))"

text \<open>The object once it has passed every check, seen at its declared type.\<close>

definition typed :: "raw_module \<Rightarrow> analysis_module" where
  "typed m = \<lparr> name = string_of (raw_name m), phase = string_of (raw_phase m),
              dependencies = array_of (raw_dependencies m),
              execute = function_of (raw_execute m) \<rparr>"

text \<open>
  \<open>registerModule\<close> either throws (\<open>Inl\<close>) or returns; the registry after the call is
  returned in both cases.
\<close>

definition registerModule ::
  "raw_module \<Rightarrow> registry \<Rightarrow> (orchestrator_error + unit) \<times> registry" where
  "registerModule m reg =
     (if has_field reg (raw_name m)
        then (Inl (DuplicateModule (string_of (raw_name m))), reg)
      else if \<not> truthy (raw_name m) \<or> typeof (raw_name m) \<noteq> ''string''
        then (Inl InvalidName, reg)
      else if \<not> truthy (raw_phase m) \<or> typeof (raw_phase m) \<noteq> ''string''
        then (Inl (InvalidPhase (string_of (raw_name m))), reg)
      else if \<not> isArray (raw_dependencies m)
        then (Inl (InvalidDependencies (string_of (raw_name m))), reg)
      else if typeof (raw_execute m) \<noteq> ''function''
        then (Inl (InvalidExecute (string_of (raw_name m))), reg)
      else (Inr (), reg @ [(string_of (raw_name m), typed m)]))"

definition getModule :: "registry \<Rightarrow> string \<Rightarrow> analysis_module option" where
  "getModule reg k = map_of reg k"

definition getAllModules :: "registry \<Rightarrow> analysis_module list" where
  "getAllModules reg = map snd reg"

text \<open>
  The registry of a new orchestrator after the given calls of \<open>registerModule\<close>, one
  after the other; a call that throws leaves the registry as it is.
\<close>

definition register_all :: "raw_module list \<Rightarrow> registry" where
  "register_all rs = foldl (\<lambda>reg r. snd (registerModule r reg)) [] rs"

text \<open>What every registry built by \<open>registerModule\<close> satisfies.\<close>

definition wf_registry :: "registry \<Rightarrow> bool" where
  "wf_registry reg =
     (distinct (map fst reg) \<and> list_all (\<lambda>(k, m). name m = k) reg)"

fun is_validation_error :: "orchestrator_error \<Rightarrow> bool" where
  "is_validation_error InvalidName = True"
| "is_validation_error (InvalidPhase n) = True"
| "is_validation_error (InvalidDependencies n) = True"
| "is_validation_error (InvalidExecute n) = True"
| "is_validation_error _ = False"

section \<open>Dependency resolution (resolveExecutionOrder)\<close>

text \<open>
  The closure \<open>visit\<close> works on three local variables: the sets \<open>visited\<close> and
  \<open>visiting\<close> and the array \<open>order\<close>; they are passed in and returned. A \<open>throw\<close> is
  the result \<open>Inl\<close>. \<open>visit_dependencies\<close> is the loop over \<open>module.dependencies\<close>
  inside \<open>visit\<close>.
\<close>

record dfs_state =
  visited :: "string set"
  visiting :: "string set"
  order :: "analysis_module list"

function visit :: "registry \<Rightarrow> string \<Rightarrow> dfs_state \<Rightarrow> orchestrator_error + dfs_state"
and visit_dependencies ::
  "registry \<Rightarrow> string \<Rightarrow> string list \<Rightarrow> dfs_state \<Rightarrow> orchestrator_error + dfs_state"
where
  "visit reg moduleName s =
     (if moduleName \<in> visiting s then Inl (CircularDependency moduleName)
      else if moduleName \<in> visited s then Inr s
      else case map_of reg moduleName of
        None \<Rightarrow> Inl (ModuleNotFound moduleName)
      | Some m \<Rightarrow>
          (case visit_dependencies reg moduleName (dependencies m)
                  (s\<lparr>visiting := insert moduleName (visiting s)\<rparr>) of
             Inl e \<Rightarrow> Inl e
           | Inr s' \<Rightarrow>
               Inr (s'\<lparr>visiting := visiting s' - {moduleName},
                        visited := insert moduleName (visited s'),
                        order := order s' @ [m]\<rparr>)))"
| "visit_dependencies reg moduleName [] s = Inr s"
| "visit_dependencies reg moduleName (dep # deps) s =
     (if \<not> modules_has reg dep then Inl (MissingDependency moduleName dep)
      else case visit reg dep s of
        Inl e \<Rightarrow> Inl e
      | Inr s' \<Rightarrow> visit_dependencies reg moduleName deps s')"
  by pat_completeness auto

text \<open>
  Termination. A call of \<open>visit\<close> that returns normally leaves \<open>visiting\<close> as it found
  it, so the registered names that are not in \<open>visiting\<close> become fewer with every nested
  call of \<open>visit\<close>, and the dependencies still to be looked at become fewer within one
  call.
\<close>

lemma visiting_restored:
  "visit_visit_dependencies_dom (Inl (reg, x, s)) \<Longrightarrow> visit reg x s = Inr s' \<Longrightarrow>
     visiting s' = visiting s"
  "visit_visit_dependencies_dom (Inr (reg, nm, ds, s)) \<Longrightarrow>
     visit_dependencies reg nm ds s = Inr s' \<Longrightarrow> visiting s' = visiting s"
proof (induction reg x s and reg nm ds s arbitrary: s' and s'
       rule: visit_visit_dependencies.pinduct)
  case (1 reg moduleName s)
  note eq = visit.psimps [OF "1.hyps"]
  show ?case
  proof (cases "moduleName \<in> visiting s \<or> moduleName \<in> visited s
                \<or> map_of reg moduleName = None")
    case True
    with "1.prems" show ?thesis by (auto simp: eq split: if_splits)
  next
    case False
    then obtain m where m: "map_of reg moduleName = Some m" by auto
    let ?s1 = "s\<lparr>visiting := insert moduleName (visiting s)\<rparr>"
    from "1.prems" False m obtain s1' where
      r: "visit_dependencies reg moduleName (dependencies m) ?s1 = Inr s1'"
      and s': "s' = s1'\<lparr>visiting := visiting s1' - {moduleName},
                         visited := insert moduleName (visited s1'),
                         order := order s1' @ [m]\<rparr>"
      by (auto simp: eq split: sum.splits)
    from "1.IH" [OF _ _ m r] False have "visiting s1' = insert moduleName (visiting s)" by simp
    with s' False show ?thesis by auto
  qed
next
  case (2 reg moduleName s)
  then show ?case by (simp add: visit_dependencies.psimps)
next
  case (3 reg moduleName dep deps s)
  note eq = visit_dependencies.psimps(2) [OF "3.hyps"]
  from "3.prems" have has: "modules_has reg dep" by (auto simp: eq split: if_splits)
  with "3.prems" obtain s1 where r1: "visit reg dep s = Inr s1"
    and r2: "visit_dependencies reg moduleName deps s1 = Inr s'"
    by (auto simp: eq split: sum.splits)
  from "3.IH"(1) [OF _ r1] has have "visiting s1 = visiting s" by simp
  moreover from "3.IH"(2) [OF _ r1 r2] has have "visiting s' = visiting s1" by simp
  ultimately show ?case by simp
qed

definition unvisiting ::
  "(registry \<times> string \<times> dfs_state) + (registry \<times> string \<times> string list \<times> dfs_state) \<Rightarrow> nat"
where
  "unvisiting a =
     (case a of
        Inl (reg, x, s) \<Rightarrow> card (fst ` set reg - visiting s)
      | Inr (reg, nm, ds, s) \<Rightarrow> card (fst ` set reg - visiting s))"

definition pending ::
  "(registry \<times> string \<times> dfs_state) + (registry \<times> string \<times> string list \<times> dfs_state) \<Rightarrow> nat"
where
  "pending a = (case a of Inl (reg, x, s) \<Rightarrow> 0 | Inr (reg, nm, ds, s) \<Rightarrow> Suc (length ds))"

termination visit
proof (relation "unvisiting <*mlex*> measure pending")
  show "wf (unvisiting <*mlex*> measure pending)"
    by (simp add: wf_mlex)
next
  fix reg :: registry and moduleName :: string and s :: dfs_state and m :: analysis_module
  assume "moduleName \<notin> visiting s" "map_of reg moduleName = Some m"
  then have mem: "moduleName \<in> fst ` set reg - visiting s"
    by (auto dest: map_of_SomeD intro: rev_image_eqI)
  have fin: "finite (fst ` set reg - visiting s)" by simp
  have "fst ` set reg - insert moduleName (visiting s)
          = (fst ` set reg - visiting s) - {moduleName}"
    by auto
  with card_Diff1_less [OF fin mem]
  have "card (fst ` set reg - insert moduleName (visiting s))
          < card (fst ` set reg - visiting s)"
    by (simp only:)
  then show "(Inr (reg, moduleName, dependencies m,
                   s\<lparr>visiting := insert moduleName (visiting s)\<rparr>),
              Inl (reg, moduleName, s)) \<in> unvisiting <*mlex*> measure pending"
    by (intro mlex_less) (simp add: unvisiting_def)
next
  fix reg :: registry and moduleName dep :: string and deps :: "string list"
    and s :: dfs_state
  show "(Inl (reg, dep, s), Inr (reg, moduleName, dep # deps, s))
          \<in> unvisiting <*mlex*> measure pending"
    by (intro mlex_leq) (simp_all add: unvisiting_def pending_def)
next
  fix reg :: registry and moduleName dep :: string and deps :: "string list"
    and s s' :: dfs_state
  assume "visit reg dep s = Inr s'" "visit_visit_dependencies_dom (Inl (reg, dep, s))"
  then have "visiting s' = visiting s" using visiting_restored(1) by blast
  then show "(Inr (reg, moduleName, deps, s'), Inr (reg, moduleName, dep # deps, s))
               \<in> unvisiting <*mlex*> measure pending"
    by (intro mlex_leq) (simp_all add: unvisiting_def pending_def)
qed

declare visit.simps [simp del]

text \<open>The loop \<open>for (const module of modules) visit(module.name)\<close>.\<close>

fun visit_all ::
  "registry \<Rightarrow> analysis_module list \<Rightarrow> dfs_state \<Rightarrow> orchestrator_error + dfs_state"
where
  "visit_all reg [] s = Inr s"
| "visit_all reg (m # ms) s =
     (case visit reg (name m) s of
        Inl e \<Rightarrow> Inl e
      | Inr s' \<Rightarrow> visit_all reg ms s')"

definition resolveExecutionOrder :: "registry \<Rightarrow> orchestrator_error + analysis_module list"
where
  "resolveExecutionOrder reg =
     (case visit_all reg (getAllModules reg) \<lparr>visited = {}, visiting = {}, order = []\<rparr> of
        Inl e \<Rightarrow> Inl e
      | Inr s \<Rightarrow> Inr (order s))"

subsection \<open>The dependency graph\<close>

text \<open>
  An edge \<open>(a, b)\<close> says that the registered module \<open>a\<close> declares the dependency \<open>b\<close>
  (registered or not).
\<close>

definition dep_rel :: "registry \<Rightarrow> (string \<times> string) set" where
  "dep_rel reg = {(a, b). \<exists>m. map_of reg a = Some m \<and> b \<in> set (dependencies m)}"

definition deps_registered :: "registry \<Rightarrow> bool" where
  "deps_registered reg =
     list_all (\<lambda>(k, m). list_all (modules_has reg) (dependencies m)) reg"

text \<open>Every module of the list has each of its dependencies earlier in the list.\<close>

definition deps_before :: "analysis_module list \<Rightarrow> bool" where
  "deps_before ms =
     (\<forall>i<length ms. set (dependencies (ms ! i)) \<subseteq> name ` set (take i ms))"

definition valid_order :: "registry \<Rightarrow> analysis_module list \<Rightarrow> bool" where
  "valid_order reg ord =
     (distinct (map name ord) \<and> name ` set ord = fst ` set reg
      \<and> (\<forall>m\<in>set ord. map_of reg (name m) = Some m) \<and> deps_before ord)"

text \<open>What holds of the three variables between two calls of \<open>visit\<close>.\<close>

definition dfs_inv :: "registry \<Rightarrow> dfs_state \<Rightarrow> bool" where
  "dfs_inv reg s =
     (visited s = name ` set (order s) \<and> distinct (map name (order s))
      \<and> (\<forall>m\<in>set (order s). map_of reg (name m) = Some m)
      \<and> deps_before (order s) \<and> visiting s \<inter> visited s = {})"

text \<open>
  The errors resolution can end with: a circular-dependency error names a module on a
  cycle, a missing-dependency error names a registered module and one of its
  dependencies that is not registered.
\<close>

fun resolution_error_ok :: "registry \<Rightarrow> orchestrator_error \<Rightarrow> bool" where
  "resolution_error_ok reg (CircularDependency n) = ((n, n) \<in> (dep_rel reg)\<^sup>+)"
| "resolution_error_ok reg (MissingDependency a d) =
     ((a, d) \<in> dep_rel reg \<and> \<not> modules_has reg d)"
| "resolution_error_ok reg _ = False"

definition visit_post ::
  "registry \<Rightarrow> dfs_state \<Rightarrow> string set \<Rightarrow> (orchestrator_error + dfs_state) \<Rightarrow> bool" where
  "visit_post reg s xs r =
     (case r of
        Inl e \<Rightarrow> resolution_error_ok reg e
      | Inr s' \<Rightarrow> dfs_inv reg s' \<and> visiting s' = visiting s \<and> visited s \<subseteq> visited s'
                  \<and> xs \<subseteq> visited s')"

section \<open>JavaScript numbers in calculateProgress\<close>

text \<open>
  \<open>calculateProgress\<close> divides and multiplies Numbers, which are IEEE 754 binary64
  values: every operation returns the exact result rounded to the nearest value with a
  53-bit significand, ties to even. The values are modelled as the rationals they
  denote and the rounding is written out. Exponent range is not modelled (no overflow,
  no subnormals): the operands here are array positions and lengths, far from both.
\<close>

definition round_even :: "rat \<Rightarrow> int" where
  "round_even y =
     (let f = \<lfloor>y\<rfloor>; r = y - of_int f
      in if r < 1 / 2 then f else if 1 / 2 < r then f + 1 else if even f then f else f + 1)"

text \<open>For \<open>q > 0\<close>, the \<open>e\<close> with \<open>2\<^sup>e \<le> q < 2\<^sup>e\<^sup>+\<^sup>1\<close>.\<close>

definition float_exponent :: "rat \<Rightarrow> int" where
  "float_exponent q = (if 1 \<le> q then bitlen \<lfloor>q\<rfloor> - 1 else - bitlen (\<lceil>1 / q\<rceil> - 1))"

definition binary64 :: "rat \<Rightarrow> rat" where
  "binary64 q =
     (if q = 0 then 0
      else let ulp = 2 powi (float_exponent \<bar>q\<bar> - 52)
           in sgn q * of_int (round_even (\<bar>q\<bar> / ulp)) * ulp)"

definition js_div :: "rat \<Rightarrow> rat \<Rightarrow> rat" where
  "js_div a b = binary64 (a / b)"

definition js_mul :: "rat \<Rightarrow> rat \<Rightarrow> rat" where
  "js_mul a b = binary64 (a * b)"

text \<open>\<open>Math.round\<close>: the nearest integer, a tie goes up.\<close>

definition Math_round :: "rat \<Rightarrow> int" where
  "Math_round x = \<lfloor>x + 1 / 2\<rfloor>"

section \<open>The executor (executeAnalysis)\<close>

record live_metrics =
  pagesCrawled :: int
  issuesFound :: int
  technologiesDetected :: int
  resourcesAnalyzed :: int

record progress_update =
  update_phase :: string
  progress :: int
  currentTask :: string
  discoveries :: "string list"
  metrics :: live_metrics

record analysis_results =
  crawlData :: js_value
  performanceData :: js_value
  securityData :: js_value
  technologyData :: js_value
  seoData :: js_value
  accessibilityData :: js_value
  cssData :: js_value
  functionalityData :: js_value

record analysis_job =
  job_id :: string
  job_url :: string
  job_options :: analysis_options

text \<open>
  What reaches the outer catch block of \<open>executeAnalysis\<close>: an error that
  \<open>resolveExecutionOrder\<close> has thrown, or a value thrown inside the loop.
\<close>

datatype failure =
    OrchestratorError orchestrator_error
  | Thrown thrown

text \<open>
  The events of \<open>OrchestratorEvents\<close>; a run is observed as the list it emits. The
  \<open>Error\<close> that \<open>moduleError\<close> carries is given by its message. Listeners are taken not
  to throw.
\<close>

datatype event =
    ModuleStart string
  | ModuleComplete string js_value
  | ModuleError string string
  | Progress progress_update
  | Complete analysis_results
  | ErrorEvent failure

record orchestrator =
  modules :: registry
  moduleResults :: "string \<rightharpoonup> js_value"

text \<open>What the body of \<open>executeAnalysis\<close> changes while it runs.\<close>

record run =
  this :: orchestrator
  ctx :: analysis_context
  emitted :: "event list"

definition emit :: "event \<Rightarrow> run \<Rightarrow> run" where
  "emit e s = s\<lparr>emitted := emitted s @ [e]\<rparr>"

definition createAnalysisContext :: "string \<Rightarrow> analysis_options \<Rightarrow> analysis_context" where
  "createAnalysisContext u opts = \<lparr>url = u, options = opts, crawlResults = JUndefined\<rparr>"

text \<open>\<open>Array.prototype.findIndex\<close>: the first position that satisfies the test, or -1.\<close>

fun findIndex :: "('a \<Rightarrow> bool) \<Rightarrow> 'a list \<Rightarrow> int" where
  "findIndex P [] = - 1"
| "findIndex P (x # xs) =
     (if P x then 0 else let i = findIndex P xs in if i = - 1 then - 1 else i + 1)"

text \<open>
  The divisor is the length of a list in which the module has been found, so it is not
  0.
\<close>

definition calculateProgress :: "analysis_module list \<Rightarrow> string \<Rightarrow> int" where
  "calculateProgress executionOrder currentModule =
     (let currentIndex = findIndex (\<lambda>m. name m = currentModule) executionOrder
      in if currentIndex = - 1 then 0
         else Math_round
                (js_mul (js_div (of_int (currentIndex + 1)) (of_nat (length executionOrder)))
                   100))"

definition emitProgress :: "progress_update \<Rightarrow> run \<Rightarrow> run" where
  "emitProgress update s = emit (Progress update) s"

text \<open>
  \<open>error instanceof Error ? error : new Error(String(error))\<close>: the message of the
  \<open>Error\<close> it yields (\<open>Inr\<close>), or the value it throws (\<open>Inl\<close>).
\<close>

fun to_error :: "thrown \<Rightarrow> thrown + string" where
  "to_error (ErrorObject msg) = Inr msg"
| "to_error (Convertible s) = Inr s"
| "to_error (Inconvertible v) = Inl v"

text \<open>
  One turn of the loop over \<open>executionOrder\<close>: the inner \<open>try\<close> and its \<open>catch\<close>.
  Logging and the listeners being taken not to throw, the conversion of the value caught
  is the one step of the catch block that can throw. The turn ends normally (\<open>Inr ()\<close>),
  or the catch block throws (\<open>Inl\<close>), which ends the loop.
\<close>

definition run_module ::
  "analysis_module list \<Rightarrow> analysis_module \<Rightarrow> run \<Rightarrow> (thrown + unit) \<times> run" where
  "run_module executionOrder m s =
     (let s1 = emit (ModuleStart (name m)) s
      in case execute m (ctx s1) of
           Inr result \<Rightarrow>
             let s2 = s1\<lparr>this := (this s1)\<lparr>moduleResults :=
                         (moduleResults (this s1))(name m \<mapsto> result)\<rparr>\<rparr>;
                 s3 = (if phase m = ''crawl''
                       then s2\<lparr>ctx := (ctx s2)\<lparr>crawlResults := result\<rparr>\<rparr>
                       else s2);
                 s4 = emit (ModuleComplete (name m) result) s3
             in (Inr (),
                 emitProgress
                   \<lparr>update_phase = phase m,
                    progress = calculateProgress executionOrder (name m),
                    currentTask = ''Completed '' @ name m,
                    discoveries = [],
                    metrics = \<lparr>pagesCrawled = 0, issuesFound = 0, technologiesDetected = 0,
                               resourcesAnalyzed = 0\<rparr>\<rparr>
                   s4)
         | Inl error \<Rightarrow>
             (case to_error error of
                Inr err \<Rightarrow> (Inr (), emit (ModuleError (name m) err) s1)
              | Inl v \<Rightarrow> (Inl v, s1)))"

fun execute_modules ::
  "analysis_module list \<Rightarrow> analysis_module list \<Rightarrow> run \<Rightarrow> (thrown + unit) \<times> run" where
  "execute_modules executionOrder [] s = (Inr (), s)"
| "execute_modules executionOrder (m # ms) s =
     (case run_module executionOrder m s of
        (Inl v, s') \<Rightarrow> (Inl v, s')
      | (Inr u, s') \<Rightarrow> execute_modules executionOrder ms s')"

text \<open>\<open>this.moduleResults.get(k)\<close>, which is \<open>undefined\<close> for a key that is not there.\<close>

definition results_get :: "(string \<rightharpoonup> js_value) \<Rightarrow> string \<Rightarrow> js_value" where
  "results_get mr k = (case mr k of None \<Rightarrow> JUndefined | Some v \<Rightarrow> v)"

definition aggregate :: "(string \<rightharpoonup> js_value) \<Rightarrow> analysis_results" where
  "aggregate mr =
     \<lparr>crawlData = results_get mr ''crawler'',
      performanceData = results_get mr ''performance'',
      securityData = results_get mr ''security'',
      technologyData = results_get mr ''technology'',
      seoData = results_get mr ''seo'',
      accessibilityData = results_get mr ''accessibility'',
      cssData = results_get mr ''css'',
      functionalityData = results_get mr ''functionality''\<rparr>"

text \<open>The state in which the loop starts: results cleared, fresh context, nothing emitted.\<close>

definition initial_run :: "orchestrator \<Rightarrow> analysis_job \<Rightarrow> run" where
  "initial_run orch job =
     \<lparr>this = orch\<lparr>moduleResults := Map.empty\<rparr>,
      ctx = createAnalysisContext (job_url job) (job_options job),
      emitted = []\<rparr>"

text \<open>
  The outer catch block, entered with what was thrown and the run as it stands: it emits
  \<open>error\<close> and rejects with the \<open>Error\<close>, unless the conversion throws again, which
  rejects with the value thrown and emits nothing. (Without a listener for \<open>error\<close>,
  \<open>emit\<close> throws the \<open>Error\<close> it is given, and the call rejects with it in the same way.)
\<close>

definition outer_catch ::
  "failure \<Rightarrow> run \<Rightarrow> (failure + analysis_results) \<times> event list \<times> orchestrator" where
  "outer_catch error s =
     (case error of
        OrchestratorError e \<Rightarrow> (Inl error, emitted s @ [ErrorEvent error], this s)
      | Thrown v \<Rightarrow>
          (case to_error v of
             Inr msg \<Rightarrow>
               let err = Thrown (ErrorObject msg)
               in (Inl err, emitted s @ [ErrorEvent err], this s)
           | Inl v' \<Rightarrow> (Inl (Thrown v'), emitted s, this s)))"

text \<open>
  \<open>executeAnalysis\<close> resolves to the aggregate (\<open>Inr\<close>) or rejects (\<open>Inl\<close>); with it come
  the events emitted, in order, and the orchestrator after the call.
\<close>

definition executeAnalysis ::
  "orchestrator \<Rightarrow> analysis_job
     \<Rightarrow> (failure + analysis_results) \<times> event list \<times> orchestrator" where
  "executeAnalysis orch job =
     (let s0 = initial_run orch job
      in case resolveExecutionOrder (modules (this s0)) of
           Inl e \<Rightarrow> outer_catch (OrchestratorError e) s0
         | Inr executionOrder \<Rightarrow>
             (case execute_modules executionOrder executionOrder s0 of
                (Inl v, s) \<Rightarrow> outer_catch (Thrown v) s
              | (Inr u, s) \<Rightarrow>
                  let results = aggregate (moduleResults (this s))
                  in (Inr results, emitted s @ [Complete results], this s)))"

subsection \<open>Reading a run\<close>

text \<open>
  The result of \<open>execute\<close> for the module at position \<open>i\<close> of the order, on the context
  the loop passes to it (the context as the modules before it have left it). At a
  position that the loop does not reach it is the result on the context with which the
  loop ended, and nothing is emitted or recorded for it.
\<close>

definition outcome ::
  "analysis_module list \<Rightarrow> run \<Rightarrow> nat \<Rightarrow> thrown + js_value" where
  "outcome ord s0 i = execute (ord ! i) (ctx (snd (execute_modules ord (take i ord) s0)))"

text \<open>
  An outcome escapes when it is a rejection with a value that the catch block of the loop
  cannot convert, so that the catch block throws.
\<close>

definition escapes :: "thrown + js_value \<Rightarrow> bool" where
  "escapes oc = (case oc of Inl v \<Rightarrow> isl (to_error v) | Inr result \<Rightarrow> False)"

text \<open>The positions of the order that the loop gets past: those before the first escape.\<close>

definition passed :: "analysis_module list \<Rightarrow> run \<Rightarrow> nat list" where
  "passed ord s0 = takeWhile (\<lambda>i. \<not> escapes (outcome ord s0 i)) [0..<length ord]"

text \<open>The progress event of the module \<open>m\<close> of the order.\<close>

definition progress_event :: "analysis_module list \<Rightarrow> analysis_module \<Rightarrow> event" where
  "progress_event executionOrder m =
     Progress \<lparr>update_phase = phase m,
               progress = calculateProgress executionOrder (name m),
               currentTask = ''Completed '' @ name m,
               discoveries = [],
               metrics = \<lparr>pagesCrawled = 0, issuesFound = 0, technologiesDetected = 0,
                          resourcesAnalyzed = 0\<rparr>\<rparr>"

text \<open>The events one turn of the loop emits, given what \<open>execute\<close> returned.\<close>

definition module_events ::
  "analysis_module list \<Rightarrow> analysis_module \<Rightarrow> thrown + js_value \<Rightarrow> event list" where
  "module_events ord m oc =
     (case oc of
        Inr result \<Rightarrow> [ModuleStart (name m), ModuleComplete (name m) result, progress_event ord m]
      | Inl v \<Rightarrow>
          (case to_error v of
             Inr err \<Rightarrow> [ModuleStart (name m), ModuleError (name m) err]
           | Inl v' \<Rightarrow> [ModuleStart (name m)]))"

fun is_progress :: "event \<Rightarrow> bool" where
  "is_progress (Progress u) = True"
| "is_progress _ = False"

fun progress_of :: "event \<Rightarrow> int list" where
  "progress_of (Progress u) = [progress u]"
| "progress_of _ = []"

definition progress_values :: "event list \<Rightarrow> int list" where
  "progress_values evs = concat (map progress_of evs)"

text \<open>The names under which \<open>executeAnalysis\<close> looks results up for the aggregate.\<close>

definition well_known_names :: "string list" where
  "well_known_names =
     [''crawler'', ''performance'', ''security'', ''technology'', ''seo'', ''accessibility'',
      ''css'', ''functionality'']"

text \<open>The slot of the aggregate that is read from the results of the module named \<open>n\<close>.\<close>

definition result_slot :: "string \<Rightarrow> analysis_results \<Rightarrow> js_value option" where
  "result_slot n res =
     (if n = ''crawler'' then Some (crawlData res)
      else if n = ''performance'' then Some (performanceData res)
      else if n = ''security'' then Some (securityData res)
      else if n = ''technology'' then Some (technologyData res)
      else if n = ''seo'' then Some (seoData res)
      else if n = ''accessibility'' then Some (accessibilityData res)
      else if n = ''css'' then Some (cssData res)
      else if n = ''functionality'' then Some (functionalityData res)
      else None)"

text \<open>
  The result of the module named \<open>n\<close> in a run over the order: what its \<open>execute\<close>
  resolved to, and \<open>undefined\<close> when it rejected or when the order has no such module.
\<close>

definition result_of :: "analysis_module list \<Rightarrow> run \<Rightarrow> string \<Rightarrow> js_value" where
  "result_of ord s0 n =
     (case find (\<lambda>i. name (ord ! i) = n) [0..<length ord] of
        None \<Rightarrow> JUndefined
      | Some i \<Rightarrow> (case outcome ord s0 i of Inr result \<Rightarrow> result | Inl v \<Rightarrow> JUndefined))"

text \<open>The events of a call of \<open>executeAnalysis\<close>.\<close>

definition events_of ::
  "(failure + analysis_results) \<times> event list \<times> orchestrator \<Rightarrow> event list"
where
  "events_of r = (case r of (res, evs, orch) \<Rightarrow> evs)"

section \<open>The cache manager (src/lib/analysis/cache.ts)\<close>

text \<open>
  The module-level \<open>memoryCache\<close> is a map from cache keys to entries; every manager of
  the process reads and writes the same one. Times are the milliseconds of \<open>Date.now()\<close>.
\<close>

record cache_entry =
  entry_value :: string
  expires :: int

type_synonym memory_cache = "string \<rightharpoonup> cache_entry"

record cache_manager =
  prefix :: string
  useRedis :: bool

definition createCacheManager :: "string \<Rightarrow> cache_manager" where
  "createCacheManager p = \<lparr>prefix = p, useRedis = True\<rparr>"

definition getKey :: "cache_manager \<Rightarrow> string \<Rightarrow> string" where
  "getKey cm key = prefix cm @ '':'' @ key"

text \<open>
  The external store is reached through the client that \<open>getRedisClient\<close>
  (\<open>lib/redis.ts\<close>) returns. The server behind it is not part of the program, so each
  operation is given what the attempt does when it is made: \<open>getRedisClient\<close> or the
  command throws (\<open>RedisFailure\<close>), or the command returns a reply. The commands an
  operation sends are returned, so that contact with the store is observable.
\<close>

datatype 'a redis_reply = RedisFailure | RedisReply 'a

datatype redis_command =
    GET string
  | SETEX string int string
  | DEL "string list"
  | EXISTS string
  | KEYS string

text \<open>
  The methods \<open>get\<close>, \<open>set\<close>, \<open>delete\<close>, \<open>has\<close> and \<open>clear\<close> are \<open>cache_get\<close>,
  \<open>cache_set\<close> and so on. \<open>JSON.parse\<close> and \<open>JSON.stringify\<close> are parameters: \<open>parse\<close>
  returns \<open>None\<close> where \<open>JSON.parse\<close> throws. The result \<open>None\<close> of \<open>get\<close> is \<open>null\<close>.
  A TTL is a whole number of seconds.
\<close>

definition memory_get ::
  "(string \<Rightarrow> 'v option) \<Rightarrow> memory_cache \<Rightarrow> int \<Rightarrow> string \<Rightarrow> 'v option \<times> memory_cache" where
  "memory_get parse mem now cacheKey =
     (case mem cacheKey of
        None \<Rightarrow> (None, mem)
      | Some cached \<Rightarrow>
          if now > expires cached then (None, mem(cacheKey := None))
          else (parse (entry_value cached), mem))"

definition cache_get ::
  "(string \<Rightarrow> 'v option) \<Rightarrow> cache_manager \<Rightarrow> memory_cache \<Rightarrow> int
     \<Rightarrow> string option redis_reply \<Rightarrow> string
     \<Rightarrow> 'v option \<times> cache_manager \<times> memory_cache \<times> redis_command list" where
  "cache_get parse cm mem now reply key =
     (let cacheKey = getKey cm key;
          fallback = (\<lambda>cm' sent. case memory_get parse mem now cacheKey of
                        (r, mem') \<Rightarrow> (r, cm', mem', sent))
      in if useRedis cm then
           (case reply of
              RedisReply v \<Rightarrow>
                (case v of
                   None \<Rightarrow> (None, cm, mem, [GET cacheKey])
                 | Some s \<Rightarrow>
                     if s = [] then (None, cm, mem, [GET cacheKey])
                     else (case parse s of
                             Some x \<Rightarrow> (Some x, cm, mem, [GET cacheKey])
                           | None \<Rightarrow> fallback (cm\<lparr>useRedis := False\<rparr>) [GET cacheKey]))
            | RedisFailure \<Rightarrow> fallback (cm\<lparr>useRedis := False\<rparr>) [GET cacheKey])
         else fallback cm [])"

text \<open>
  \<open>options.ttl || 3600\<close>: the right operand is taken when the left one is falsy, that is
  when no TTL is given and when it is 0.
\<close>

definition ttl_or_default :: "int option \<Rightarrow> int" where
  "ttl_or_default t = (case t of None \<Rightarrow> 3600 | Some n \<Rightarrow> if n = 0 then 3600 else n)"

definition cache_set ::
  "('v \<Rightarrow> string) \<Rightarrow> cache_manager \<Rightarrow> memory_cache \<Rightarrow> int \<Rightarrow> unit redis_reply
     \<Rightarrow> string \<Rightarrow> 'v \<Rightarrow> int option
     \<Rightarrow> cache_manager \<times> memory_cache \<times> redis_command list" where
  "cache_set stringify cm mem now reply key v options_ttl =
     (let cacheKey = getKey cm key;
          ttl = ttl_or_default options_ttl;
          serialized = stringify v;
          fallback = (\<lambda>cm' sent.
             (cm', mem(cacheKey \<mapsto> \<lparr>entry_value = serialized, expires = now + ttl * 1000\<rparr>),
              sent))
      in if useRedis cm then
           (case reply of
              RedisReply u \<Rightarrow> (cm, mem, [SETEX cacheKey ttl serialized])
            | RedisFailure \<Rightarrow>
                fallback (cm\<lparr>useRedis := False\<rparr>) [SETEX cacheKey ttl serialized])
         else fallback cm [])"

definition cache_delete ::
  "cache_manager \<Rightarrow> memory_cache \<Rightarrow> unit redis_reply \<Rightarrow> string
     \<Rightarrow> cache_manager \<times> memory_cache \<times> redis_command list" where
  "cache_delete cm mem reply key =
     (let cacheKey = getKey cm key
      in if useRedis cm then
           (case reply of
              RedisReply u \<Rightarrow> (cm, mem, [DEL [cacheKey]])
            | RedisFailure \<Rightarrow> (cm\<lparr>useRedis := False\<rparr>, mem(cacheKey := None), [DEL [cacheKey]]))
         else (cm, mem(cacheKey := None), []))"

definition memory_has :: "memory_cache \<Rightarrow> int \<Rightarrow> string \<Rightarrow> bool \<times> memory_cache" where
  "memory_has mem now cacheKey =
     (case mem cacheKey of
        None \<Rightarrow> (False, mem)
      | Some cached \<Rightarrow>
          if now > expires cached then (False, mem(cacheKey := None)) else (True, mem))"

definition cache_has ::
  "cache_manager \<Rightarrow> memory_cache \<Rightarrow> int \<Rightarrow> int redis_reply \<Rightarrow> string
     \<Rightarrow> bool \<times> cache_manager \<times> memory_cache \<times> redis_command list" where
  "cache_has cm mem now reply key =
     (let cacheKey = getKey cm key;
          fallback = (\<lambda>cm' sent. case memory_has mem now cacheKey of
                        (r, mem') \<Rightarrow> (r, cm', mem', sent))
      in if useRedis cm then
           (case reply of
              RedisReply n \<Rightarrow> (n = 1, cm, mem, [EXISTS cacheKey])
            | RedisFailure \<Rightarrow> fallback (cm\<lparr>useRedis := False\<rparr>) [EXISTS cacheKey])
         else fallback cm [])"

definition startsWith :: "string \<Rightarrow> string \<Rightarrow> bool" where
  "startsWith s p = (take (length p) s = p)"

definition memory_clear :: "cache_manager \<Rightarrow> memory_cache \<Rightarrow> memory_cache" where
  "memory_clear cm mem = (\<lambda>k. if startsWith k (prefix cm @ '':'') then None else mem k)"

text \<open>\<open>clear\<close> asks the store for the keys and, when there are any, deletes them.\<close>

definition cache_clear ::
  "cache_manager \<Rightarrow> memory_cache \<Rightarrow> string list redis_reply \<Rightarrow> unit redis_reply
     \<Rightarrow> cache_manager \<times> memory_cache \<times> redis_command list" where
  "cache_clear cm mem keys_reply del_reply =
     (let pattern = prefix cm @ '':*''
      in if useRedis cm then
           (case keys_reply of
              RedisReply ks \<Rightarrow>
                if length ks > 0 then
                  (case del_reply of
                     RedisReply u \<Rightarrow> (cm, mem, [KEYS pattern, DEL ks])
                   | RedisFailure \<Rightarrow>
                       (cm\<lparr>useRedis := False\<rparr>, memory_clear cm mem, [KEYS pattern, DEL ks]))
                else (cm, mem, [KEYS pattern])
            | RedisFailure \<Rightarrow> (cm\<lparr>useRedis := False\<rparr>, memory_clear cm mem, [KEYS pattern]))
         else (cm, memory_clear cm mem, []))"

subsection \<open>Sequences of operations on one manager\<close>

text \<open>
  An operation of a sequence comes with the time at which it runs and with what the store
  would do if it were asked.
\<close>

datatype 'v cache_op =
    Get string "string option redis_reply"
  | Set string 'v "int option" "unit redis_reply"
  | Delete string "unit redis_reply"
  | Has string "int redis_reply"
  | Clear "string list redis_reply" "unit redis_reply"

datatype 'v op_result = GetResult "'v option" | HasResult bool | Done

record 'v cache_state =
  manager :: cache_manager
  memoryCache :: memory_cache
  sent :: "redis_command list"
  returned :: "'v op_result list"

definition apply_op ::
  "(string \<Rightarrow> 'v option) \<Rightarrow> ('v \<Rightarrow> string) \<Rightarrow> int \<times> 'v cache_op \<Rightarrow> 'v cache_state
     \<Rightarrow> 'v cache_state" where
  "apply_op parse stringify timed st =
     (case timed of (now, op) \<Rightarrow>
       (case op of
          Get key reply \<Rightarrow>
            (case cache_get parse (manager st) (memoryCache st) now reply key of
               (r, cm, mem, cmds) \<Rightarrow>
                 \<lparr>manager = cm, memoryCache = mem, sent = sent st @ cmds,
                  returned = returned st @ [GetResult r]\<rparr>)
        | Set key v ttl reply \<Rightarrow>
            (case cache_set stringify (manager st) (memoryCache st) now reply key v ttl of
               (cm, mem, cmds) \<Rightarrow>
                 \<lparr>manager = cm, memoryCache = mem, sent = sent st @ cmds,
                  returned = returned st @ [Done]\<rparr>)
        | Delete key reply \<Rightarrow>
            (case cache_delete (manager st) (memoryCache st) reply key of
               (cm, mem, cmds) \<Rightarrow>
                 \<lparr>manager = cm, memoryCache = mem, sent = sent st @ cmds,
                  returned = returned st @ [Done]\<rparr>)
        | Has key reply \<Rightarrow>
            (case cache_has (manager st) (memoryCache st) now reply key of
               (r, cm, mem, cmds) \<Rightarrow>
                 \<lparr>manager = cm, memoryCache = mem, sent = sent st @ cmds,
                  returned = returned st @ [HasResult r]\<rparr>)
        | Clear keys_reply del_reply \<Rightarrow>
            (case cache_clear (manager st) (memoryCache st) keys_reply del_reply of
               (cm, mem, cmds) \<Rightarrow>
                 \<lparr>manager = cm, memoryCache = mem, sent = sent st @ cmds,
                  returned = returned st @ [Done]\<rparr>)))"

definition run_ops ::
  "(string \<Rightarrow> 'v option) \<Rightarrow> ('v \<Rightarrow> string) \<Rightarrow> (int \<times> 'v cache_op) list \<Rightarrow> 'v cache_state
     \<Rightarrow> 'v cache_state" where
  "run_ops parse stringify ops st = foldl (\<lambda>s t. apply_op parse stringify t s) st ops"

text \<open>The store fails when the operation asks it.\<close>

fun store_unreachable :: "'v cache_op \<Rightarrow> bool" where
  "store_unreachable (Get key reply) = (reply = RedisFailure)"
| "store_unreachable (Set key v ttl reply) = (reply = RedisFailure)"
| "store_unreachable (Delete key reply) = (reply = RedisFailure)"
| "store_unreachable (Has key reply) = (reply = RedisFailure)"
| "store_unreachable (Clear keys_reply del_reply) =
     (case keys_reply of
        RedisFailure \<Rightarrow> True
      | RedisReply ks \<Rightarrow> ks \<noteq> [] \<and> del_reply = RedisFailure)"

text \<open>The same operation with a store that fails whenever it is asked.\<close>

fun without_store :: "'v cache_op \<Rightarrow> 'v cache_op" where
  "without_store (Get key reply) = Get key RedisFailure"
| "without_store (Set key v ttl reply) = Set key v ttl RedisFailure"
| "without_store (Delete key reply) = Delete key RedisFailure"
| "without_store (Has key reply) = Has key RedisFailure"
| "without_store (Clear keys_reply del_reply) = Clear RedisFailure RedisFailure"

subsection \<open>Example registrations\<close>

definition crawler_raw :: raw_module where
  "crawler_raw = \<lparr> raw_name = FString ''crawler'', raw_phase = FString ''crawl'',
                   raw_dependencies = FArray [],
                   raw_execute = FFunction (\<lambda>c. Inr (JString (url c))) \<rparr>"

definition crawler_again :: raw_module where
  "crawler_again = \<lparr> raw_name = FString ''crawler'', raw_phase = FString ''seo'',
                     raw_dependencies = FArray [''x''],
                     raw_execute = FFunction (\<lambda>c. Inl (ErrorObject ''boom'')) \<rparr>"

definition crawler_registry :: registry where
  "crawler_registry = snd (registerModule crawler_raw [])"

definition broken_crawler :: raw_module where
  "broken_crawler = \<lparr> raw_name = FString ''crawler'', raw_phase = FUndefined,
                      raw_dependencies = FString ''none'', raw_execute = FNumber 3 \<rparr>"

definition broken_other :: raw_module where
  "broken_other = \<lparr> raw_name = FString ''other'', raw_phase = FUndefined,
                    raw_dependencies = FString ''none'', raw_execute = FNumber 3 \<rparr>"


subsection \<open>Example modules, registries and jobs\<close>

definition raw :: "string \<Rightarrow> string \<Rightarrow> string list \<Rightarrow> execute_fn \<Rightarrow> raw_module" where
  "raw n p ds f =
     \<lparr>raw_name = FString n, raw_phase = FString p, raw_dependencies = FArray ds,
      raw_execute = FFunction f\<rparr>"

definition succeed :: "js_value \<Rightarrow> execute_fn" where
  "succeed r = (\<lambda>c. Inr r)"

definition fail :: "string \<Rightarrow> execute_fn" where
  "fail e = (\<lambda>c. Inl (ErrorObject e))"

text \<open>
  \<open>Object.create(null)\<close> as a rejection value: \<open>String\<close> throws a \<open>TypeError\<close> on it.
\<close>

definition null_prototype_object :: thrown where
  "null_prototype_object = Inconvertible (ErrorObject ''Cannot convert object to primitive value'')"

definition fail_with :: "thrown \<Rightarrow> execute_fn" where
  "fail_with v = (\<lambda>c. Inl v)"

definition new_orchestrator :: "registry \<Rightarrow> orchestrator" where
  "new_orchestrator reg = \<lparr>modules = reg, moduleResults = Map.empty\<rparr>"

definition job1 :: analysis_job where
  "job1 = \<lparr>job_id = ''job-1'', job_url = ''https://example.com'',
           job_options = \<lparr>maxDepth = 2, respectRobotsTxt = True,
                          includeExternalLinks = False, performanceRuns = 1\<rparr>\<rparr>"

definition diamond :: registry where
  "diamond = register_all
     [raw ''seo'' ''seo'' [''performance'', ''technology''] (succeed (JNumber 4)),
      raw ''performance'' ''performance'' [''crawler''] (succeed (JNumber 2)),
      raw ''technology'' ''technology'' [''crawler''] (succeed (JNumber 3)),
      raw ''crawler'' ''crawl'' [] (succeed (JNumber 1))]"

definition cycle_ab :: registry where
  "cycle_ab = register_all
     [raw ''a'' ''seo'' [''b''] (succeed JNull), raw ''b'' ''css'' [''a''] (succeed JNull)]"

definition ghost_then_cycle :: registry where
  "ghost_then_cycle = register_all
     [raw ''x'' ''seo'' [''ghost''] (succeed JNull),
      raw ''a'' ''seo'' [''b''] (succeed JNull), raw ''b'' ''css'' [''a''] (succeed JNull)]"

definition ghost_only :: registry where
  "ghost_only = register_all
     [raw ''crawler'' ''crawl'' [] (succeed JNull),
      raw ''seo'' ''seo'' [''crawler'', ''ghost''] (succeed JNull)]"

definition cycle_then_ghost :: registry where
  "cycle_then_ghost = register_all
     [raw ''a'' ''seo'' [''b''] (succeed JNull),
      raw ''b'' ''css'' [''a'', ''ghost''] (succeed JNull)]"

definition security_fails :: registry where
  "security_fails = register_all
     [raw ''security'' ''security'' [] (fail ''boom''),
      raw ''seo'' ''seo'' [] (succeed (JString ''ok''))]"

definition a_fails :: registry where
  "a_fails = register_all
     [raw ''a'' ''security'' [] (fail ''boom''), raw ''b'' ''seo'' [] (succeed (JString ''ok''))]"

definition seo_then_bare_security :: registry where
  "seo_then_bare_security = register_all
     [raw ''seo'' ''seo'' [] (succeed (JString ''ok'')),
      raw ''security'' ''security'' [] (fail_with null_prototype_object)]"








text \<open>Strings as cached values: \<open>JSON.stringify\<close> quotes them, \<open>JSON.parse\<close> unquotes.\<close>

definition stringify_string :: "string \<Rightarrow> string" where
  "stringify_string s = quoted s"

definition parse_string :: "string \<Rightarrow> string option" where
  "parse_string s =
     (if 2 \<le> length s \<and> hd s = CHR 0x22 \<and> last s = CHR 0x22 then Some (butlast (tl s))
      else None)"

text \<open>A manager that has found the store unreachable, and an empty memory cache.\<close>

definition fallen_back :: cache_manager where
  "fallen_back = \<lparr>prefix = ''analysis:job-1'', useRedis = False\<rparr>"

definition fresh_state :: "cache_manager \<Rightarrow> string cache_state" where
  "fresh_state cm = \<lparr>manager = cm, memoryCache = Map.empty, sent = [], returned = []\<rparr>"

section \<open>Registration\<close>

lemma typeof_string_iff: "typeof f = ''string'' \<longleftrightarrow> (\<exists>s. f = FString s)"
  by (cases f) simp_all

lemma typeof_function_iff: "typeof f = ''function'' \<longleftrightarrow> (\<exists>g. f = FFunction g)"
  by (cases f) simp_all

lemma wf_registry_empty: "wf_registry []"
  by (simp add: wf_registry_def)

lemma registerModule_wf:
  assumes "wf_registry reg"
  shows "wf_registry (snd (registerModule m reg))"
proof (cases "has_field reg (raw_name m)")
  case True
  then show ?thesis using assms by (simp add: registerModule_def)
next
  case False
  show ?thesis
  proof (cases "fst (registerModule m reg)")
    case (Inl e)
    then show ?thesis using assms False
      by (auto simp: registerModule_def split: if_splits)
  next
    case (Inr u)
    then obtain s where s: "raw_name m = FString s"
      using False by (auto simp: registerModule_def typeof_string_iff split: if_splits)
    from Inr False have "snd (registerModule m reg) = reg @ [(s, typed m)]"
      by (auto simp: registerModule_def s split: if_splits)
    moreover have "s \<notin> fst ` set reg"
      using False by (simp add: s modules_has_def)
    moreover have "name (typed m) = s"
      by (simp add: typed_def s)
    ultimately show ?thesis
      using assms by (auto simp: wf_registry_def)
  qed
qed

lemma register_all_snoc:
  "register_all (rs @ [r]) = snd (registerModule r (register_all rs))"
  by (simp add: register_all_def)

lemma register_all_wf: "wf_registry (register_all rs)"
proof (induction rs rule: rev_induct)
  case Nil
  then show ?case by (simp add: register_all_def wf_registry_empty)
next
  case (snoc r rs)
  then show ?case by (simp add: register_all_snoc registerModule_wf)
qed

text \<open>
  A module is accepted exactly when its name is new and its fields have the shapes that
  the type \<open>AnalysisModule\<close> declares, name and phase not empty; \<open>typed\<close> then reads the
  fields as they are.
\<close>

lemma registerModule_accepts:
  "fst (registerModule m reg) = Inr () \<longleftrightarrow>
     (\<exists>n p ds f. raw_name m = FString n \<and> n \<noteq> [] \<and> \<not> modules_has reg n
        \<and> raw_phase m = FString p \<and> p \<noteq> [] \<and> raw_dependencies m = FArray ds
        \<and> raw_execute m = FFunction f
        \<and> typed m = \<lparr>name = n, phase = p, dependencies = ds, execute = f\<rparr>)"
proof
  assume "fst (registerModule m reg) = Inr ()"
  then have checks: "\<not> has_field reg (raw_name m)" "truthy (raw_name m)"
    "typeof (raw_name m) = ''string''" "truthy (raw_phase m)"
    "typeof (raw_phase m) = ''string''" "isArray (raw_dependencies m)"
    "typeof (raw_execute m) = ''function''"
    by (auto simp: registerModule_def split: if_splits)
  from checks(3,5,7) obtain n p f where
    "raw_name m = FString n" "raw_phase m = FString p" "raw_execute m = FFunction f"
    by (auto simp: typeof_string_iff typeof_function_iff)
  moreover from checks(6) obtain ds where "raw_dependencies m = FArray ds"
    by (cases "raw_dependencies m") simp_all
  ultimately show "\<exists>n p ds f. raw_name m = FString n \<and> n \<noteq> [] \<and> \<not> modules_has reg n
        \<and> raw_phase m = FString p \<and> p \<noteq> [] \<and> raw_dependencies m = FArray ds
        \<and> raw_execute m = FFunction f
        \<and> typed m = \<lparr>name = n, phase = p, dependencies = ds, execute = f\<rparr>"
    using checks(1,2,4) by (simp add: typed_def)
next
  assume "\<exists>n p ds f. raw_name m = FString n \<and> n \<noteq> [] \<and> \<not> modules_has reg n
        \<and> raw_phase m = FString p \<and> p \<noteq> [] \<and> raw_dependencies m = FArray ds
        \<and> raw_execute m = FFunction f
        \<and> typed m = \<lparr>name = n, phase = p, dependencies = ds, execute = f\<rparr>"
  then show "fst (registerModule m reg) = Inr ()"
    by (auto simp: registerModule_def)
qed

text \<open>
  C7. When a module named \<open>n\<close> is already registered, registering another module with
  that name throws the duplicate-name error; the registry is the same after the failed
  call, and \<open>getModule n\<close> still returns the first module.
\<close>

theorem C7_duplicate_registration_rejected:
  assumes "getModule reg n = Some m"
    and "raw_name r = FString n"
  shows "registerModule r reg = (Inl (DuplicateModule n), reg)
         \<and> getModule (snd (registerModule r reg)) n = Some m"
proof -
  from assms(1) have "n \<in> fst ` set reg"
    by (auto simp: getModule_def dest: map_of_SomeD intro: rev_image_eqI)
  then have "has_field reg (raw_name r)"
    by (simp add: assms(2) modules_has_def)
  then have "registerModule r reg = (Inl (DuplicateModule n), reg)"
    by (simp add: registerModule_def assms(2))
  then show ?thesis using assms(1) by simp
qed

lemma crawler_registry_eq: "crawler_registry = [(''crawler'', typed crawler_raw)]"
  by (simp add: crawler_registry_def registerModule_def crawler_raw_def modules_has_def)

theorem C7_duplicate_registration_rejected_witness:
  "getModule crawler_registry ''crawler'' = Some (typed crawler_raw)
   \<and> raw_name crawler_again = FString ''crawler''
   \<and> registerModule crawler_again crawler_registry
       = (Inl (DuplicateModule ''crawler''), crawler_registry)
   \<and> getModule (snd (registerModule crawler_again crawler_registry)) ''crawler''
       = Some (typed crawler_raw)"
proof -
  have a: "getModule crawler_registry ''crawler'' = Some (typed crawler_raw)"
    by (simp add: crawler_registry_eq getModule_def)
  have b: "raw_name crawler_again = FString ''crawler''"
    by (simp add: crawler_again_def)
  from C7_duplicate_registration_rejected [OF a b] a b show ?thesis
    by simp
qed

text \<open>
  C10. The duplicate-name test comes first: a module whose name is already registered
  gets the duplicate-name error whatever its other fields are, and a field-validation
  error is only ever thrown for a name that is not in the registry.
\<close>

theorem C10_duplicate_check_precedes_validation:
  "(modules_has reg n \<and> raw_name r = FString n
      \<longrightarrow> fst (registerModule r reg) = Inl (DuplicateModule n))
   \<and> (fst (registerModule r' reg) = Inl e \<and> is_validation_error e
      \<longrightarrow> \<not> has_field reg (raw_name r'))"
proof (intro conjI impI)
  assume "modules_has reg n \<and> raw_name r = FString n"
  then have "has_field reg (raw_name r)" "string_of (raw_name r) = n" by simp_all
  then show "fst (registerModule r reg) = Inl (DuplicateModule n)"
    by (simp add: registerModule_def)
next
  assume rejected: "fst (registerModule r' reg) = Inl e \<and> is_validation_error e"
  show "\<not> has_field reg (raw_name r')"
  proof
    assume "has_field reg (raw_name r')"
    then have "fst (registerModule r' reg) = Inl (DuplicateModule (string_of (raw_name r')))"
      by (simp add: registerModule_def)
    with rejected show False by auto
  qed
qed

theorem C10_duplicate_check_precedes_validation_witness:
  "modules_has crawler_registry ''crawler'' \<and> raw_name broken_crawler = FString ''crawler''
   \<and> fst (registerModule broken_crawler crawler_registry) = Inl (DuplicateModule ''crawler'')
   \<and> fst (registerModule broken_other crawler_registry) = Inl (InvalidPhase ''other'')
   \<and> is_validation_error (InvalidPhase ''other'')
   \<and> \<not> has_field crawler_registry (raw_name broken_other)"
proof -
  have a: "modules_has crawler_registry ''crawler''"
    by (simp add: crawler_registry_eq modules_has_def)
  have b: "raw_name broken_crawler = FString ''crawler''"
    by (simp add: broken_crawler_def)
  have c: "fst (registerModule broken_other crawler_registry) = Inl (InvalidPhase ''other'')"
    by (simp add: registerModule_def broken_other_def crawler_registry_eq modules_has_def)
  have d: "is_validation_error (InvalidPhase ''other'')"
    by simp
  from C10_duplicate_check_precedes_validation
         [of crawler_registry "''crawler''" broken_crawler broken_other "InvalidPhase ''other''"]
       a b c d
  show ?thesis by simp
qed

section \<open>Dependency resolution: correctness\<close>

lemma wf_registry_lookup:
  "wf_registry reg \<Longrightarrow> map_of reg k = Some m \<Longrightarrow> name m = k"
  by (auto simp: wf_registry_def list_all_iff dest!: map_of_SomeD)

lemma deps_before_snoc:
  assumes "deps_before ms" and "set (dependencies m) \<subseteq> name ` set ms"
  shows "deps_before (ms @ [m])"
  unfolding deps_before_def
proof (intro allI impI)
  fix i assume "i < length (ms @ [m])"
  then consider "i < length ms" | "i = length ms" by fastforce
  then show "set (dependencies ((ms @ [m]) ! i)) \<subseteq> name ` set (take i (ms @ [m]))"
  proof cases
    case 1
    with assms(1) show ?thesis by (simp add: deps_before_def nth_append)
  next
    case 2
    with assms(2) show ?thesis by simp
  qed
qed

text \<open>
  The invariant of the traversal. \<open>visit x\<close> is called with every module in progress
  depending on \<open>x\<close>, so finding \<open>x\<close> in progress closes a cycle through \<open>x\<close>.
\<close>

lemma visit_correct:
  "wf_registry reg \<Longrightarrow> dfs_inv reg s \<Longrightarrow> modules_has reg x \<Longrightarrow>
     (\<forall>v\<in>visiting s. (v, x) \<in> (dep_rel reg)\<^sup>+) \<Longrightarrow> visit_post reg s {x} (visit reg x s)"
  "wf_registry reg \<Longrightarrow> dfs_inv reg s \<Longrightarrow> (\<forall>d\<in>set ds. (nm, d) \<in> dep_rel reg) \<Longrightarrow>
     (\<forall>v\<in>visiting s. (v, nm) \<in> (dep_rel reg)\<^sup>*) \<Longrightarrow>
     visit_post reg s (set ds) (visit_dependencies reg nm ds s)"
proof (induction reg x s and reg nm ds s rule: visit_visit_dependencies.induct)
  case (1 reg moduleName s)
  note wf = \<open>wf_registry reg\<close> and inv = \<open>dfs_inv reg s\<close>
  show ?case
  proof (cases "moduleName \<in> visiting s")
    case True
    with "1.prems"(4) show ?thesis by (auto simp: visit_post_def visit.simps)
  next
    case nvisiting: False
    show ?thesis
    proof (cases "moduleName \<in> visited s")
      case True
      with nvisiting inv show ?thesis by (auto simp: visit_post_def visit.simps)
    next
      case nvisited: False
      from \<open>modules_has reg moduleName\<close> obtain m where m: "map_of reg moduleName = Some m"
        by (cases "map_of reg moduleName") (auto simp: modules_has_def map_of_eq_None_iff)
      have nm: "name m = moduleName" using wf m by (rule wf_registry_lookup)
      let ?s1 = "s\<lparr>visiting := insert moduleName (visiting s)\<rparr>"
      let ?r1 = "visit_dependencies reg moduleName (dependencies m) ?s1"
      have inv1: "dfs_inv reg ?s1"
        using inv nvisited by (auto simp: dfs_inv_def)
      have edges: "\<forall>d\<in>set (dependencies m). (moduleName, d) \<in> dep_rel reg"
        using m by (auto simp: dep_rel_def)
      have path: "\<forall>v\<in>visiting ?s1. (v, moduleName) \<in> (dep_rel reg)\<^sup>*"
        using "1.prems"(4) by (auto intro: trancl_into_rtrancl)
      from "1.IH" [OF nvisiting nvisited m wf inv1 edges path]
      have post1: "visit_post reg ?s1 (set (dependencies m)) ?r1" .
      show ?thesis
      proof (cases ?r1)
        case (Inl e)
        with nvisiting nvisited m have "visit reg moduleName s = Inl e"
          by (simp add: visit.simps)
        with post1 Inl show ?thesis by (simp add: visit_post_def)
      next
        case (Inr s')
        let ?s2 = "s'\<lparr>visiting := visiting s' - {moduleName},
                       visited := insert moduleName (visited s'),
                       order := order s' @ [m]\<rparr>"
        from Inr nvisiting nvisited m have r: "visit reg moduleName s = Inr ?s2"
          by (simp add: visit.simps)
        from post1 Inr have inv': "dfs_inv reg s'"
          and vis': "visiting s' = insert moduleName (visiting s)"
          and mono: "visited s \<subseteq> visited s'"
          and deps: "set (dependencies m) \<subseteq> visited s'"
          by (simp_all add: visit_post_def)
        have fresh: "moduleName \<notin> visited s'"
          using inv' vis' by (auto simp: dfs_inv_def)
        have "deps_before (order s' @ [m])"
          using inv' deps by (intro deps_before_snoc) (auto simp: dfs_inv_def)
        then have "dfs_inv reg ?s2"
          using inv' fresh nm m by (auto simp: dfs_inv_def)
        moreover have "visiting ?s2 = visiting s"
          using vis' nvisiting by auto
        ultimately show ?thesis
          using r mono by (auto simp: visit_post_def)
      qed
    qed
  qed
next
  case (2 reg moduleName s)
  then show ?case by (auto simp: visit_post_def)
next
  case (3 reg moduleName dep deps s)
  note wf = \<open>wf_registry reg\<close> and inv = \<open>dfs_inv reg s\<close>
  show ?case
  proof (cases "modules_has reg dep")
    case False
    with "3.prems"(3) show ?thesis by (auto simp: visit_post_def)
  next
    case True
    let ?r1 = "visit reg dep s"
    have path: "\<forall>v\<in>visiting s. (v, dep) \<in> (dep_rel reg)\<^sup>+"
      using "3.prems"(3,4) by (auto intro: rtrancl_into_trancl1)
    from "3.IH"(1) [OF _ wf inv True path] True
    have post1: "visit_post reg s {dep} ?r1" by simp
    show ?thesis
    proof (cases ?r1)
      case (Inl e)
      with True have "visit_dependencies reg moduleName (dep # deps) s = Inl e" by simp
      with post1 Inl show ?thesis by (simp add: visit_post_def)
    next
      case (Inr s')
      from post1 Inr have inv': "dfs_inv reg s'"
        and vis': "visiting s' = visiting s"
        and mono: "visited s \<subseteq> visited s'"
        and dep: "dep \<in> visited s'"
        by (simp_all add: visit_post_def)
      from Inr True
      have r: "visit_dependencies reg moduleName (dep # deps) s
                 = visit_dependencies reg moduleName deps s'"
        by simp
      have "visit_post reg s' (set deps) (visit_dependencies reg moduleName deps s')"
        using "3.IH"(2) [OF _ Inr wf inv'] True "3.prems"(3,4) vis' by simp
      then have "visit_post reg s (set (dep # deps)) (visit_dependencies reg moduleName deps s')"
        using vis' mono dep by (auto simp: visit_post_def split: sum.splits)
      then show ?thesis by (simp only: r)
    qed
  qed
qed

lemma visit_all_correct:
  "wf_registry reg \<Longrightarrow> dfs_inv reg s \<Longrightarrow> visiting s = {} \<Longrightarrow>
     (\<forall>m\<in>set ms. modules_has reg (name m)) \<Longrightarrow>
     visit_post reg s (name ` set ms) (visit_all reg ms s)"
proof (induction ms arbitrary: s)
  case Nil
  then show ?case by (auto simp: visit_post_def)
next
  case (Cons m ms)
  let ?r1 = "visit reg (name m) s"
  have post1: "visit_post reg s {name m} ?r1"
    using visit_correct(1) [OF Cons.prems(1,2)] Cons.prems(3,4) by simp
  show ?case
  proof (cases ?r1)
    case (Inl e)
    with post1 show ?thesis by (simp add: visit_post_def)
  next
    case (Inr s')
    with post1 have inv': "dfs_inv reg s'"
      and vis': "visiting s' = visiting s"
      and mono: "visited s \<subseteq> visited s'"
      and here: "name m \<in> visited s'"
      by (simp_all add: visit_post_def)
    from Cons.IH [OF Cons.prems(1) inv'] vis' Cons.prems(3,4)
    have "visit_post reg s' (name ` set ms) (visit_all reg ms s')" by simp
    then show ?thesis
      using Inr vis' mono here by (auto simp: visit_post_def split: sum.splits)
  qed
qed

lemma resolveExecutionOrder_correct:
  assumes "wf_registry reg"
  shows "case resolveExecutionOrder reg of
           Inl e \<Rightarrow> resolution_error_ok reg e
         | Inr ord \<Rightarrow> valid_order reg ord"
proof -
  let ?s0 = "\<lparr>visited = {}, visiting = {}, order = []\<rparr>"
  let ?r0 = "visit_all reg (getAllModules reg) ?s0"
  have inv0: "dfs_inv reg ?s0"
    by (simp add: dfs_inv_def deps_before_def)
  have reg_names: "\<forall>m\<in>set (getAllModules reg). modules_has reg (name m)"
    using assms by (force simp: wf_registry_def list_all_iff modules_has_def getAllModules_def)
  have names: "name ` set (getAllModules reg) = fst ` set reg"
    using assms by (force simp: wf_registry_def list_all_iff getAllModules_def)
  from visit_all_correct [OF assms inv0 _ reg_names]
  have post: "visit_post reg ?s0 (name ` set (getAllModules reg)) ?r0" by simp
  show ?thesis
  proof (cases ?r0)
    case (Inl e)
    with post show ?thesis by (simp add: resolveExecutionOrder_def visit_post_def)
  next
    case (Inr s)
    then have r: "resolveExecutionOrder reg = Inr (order s)"
      by (simp add: resolveExecutionOrder_def)
    from post Inr have inv: "dfs_inv reg s"
      and all: "name ` set (getAllModules reg) \<subseteq> visited s"
      by (simp_all add: visit_post_def)
    have "name ` set (order s) \<subseteq> fst ` set reg"
    proof
      fix k assume "k \<in> name ` set (order s)"
      then obtain m where "m \<in> set (order s)" "k = name m" by auto
      with inv have "map_of reg k = Some m" by (simp add: dfs_inv_def)
      then show "k \<in> fst ` set reg" by (auto dest: map_of_SomeD intro: rev_image_eqI)
    qed
    moreover have "fst ` set reg \<subseteq> name ` set (order s)"
      using all inv names by (simp add: dfs_inv_def)
    ultimately have "valid_order reg (order s)"
      using inv by (auto simp: valid_order_def dfs_inv_def)
    with r show ?thesis by simp
  qed
qed

lemma valid_order_index:
  assumes "valid_order reg ord" and "k \<in> fst ` set reg"
  shows "\<exists>i<length ord. name (ord ! i) = k"
proof -
  from assms have "k \<in> name ` set ord" by (simp add: valid_order_def)
  then obtain m where "m \<in> set ord" "name m = k" by auto
  then show ?thesis by (auto simp: in_set_conv_nth)
qed

lemma distinct_names_index:
  assumes "distinct (map name ord)" and "i < length ord" and "j < length ord"
    and "name (ord ! i) = name (ord ! j)"
  shows "i = j"
proof -
  from assms have "map name ord ! i = map name ord ! j" by simp
  moreover have "i < length (map name ord)" "j < length (map name ord)"
    using assms(2,3) by simp_all
  ultimately show ?thesis
    using assms(1) by (simp only: nth_eq_iff_index_eq)
qed

lemma valid_order_set:
  assumes "wf_registry reg" and "valid_order reg ord"
  shows "set ord = set (getAllModules reg)"
proof
  show "set ord \<subseteq> set (getAllModules reg)"
  proof
    fix m assume "m \<in> set ord"
    with assms(2) have "map_of reg (name m) = Some m" by (simp add: valid_order_def)
    then have "(name m, m) \<in> set reg" by (rule map_of_SomeD)
    then show "m \<in> set (getAllModules reg)" by (force simp: getAllModules_def)
  qed
  show "set (getAllModules reg) \<subseteq> set ord"
  proof
    fix m assume "m \<in> set (getAllModules reg)"
    then obtain k where km: "(k, m) \<in> set reg" by (auto simp: getAllModules_def)
    with assms(1) have look: "map_of reg k = Some m" by (simp add: wf_registry_def)
    from km have "k \<in> fst ` set reg" by (auto intro: rev_image_eqI)
    from valid_order_index [OF assms(2) this]
    obtain i where i: "i < length ord" "name (ord ! i) = k" by auto
    with assms(2) have "map_of reg k = Some (ord ! i)" by (auto simp: valid_order_def)
    with look have "ord ! i = m" by simp
    with i(1) show "m \<in> set ord" by (auto simp: in_set_conv_nth)
  qed
qed

lemma valid_order_length:
  assumes "wf_registry reg" and "valid_order reg ord"
  shows "length ord = length reg"
proof -
  have "length ord = card (name ` set ord)"
    using assms(2) by (metis valid_order_def distinct_card length_map set_map)
  also have "\<dots> = card (fst ` set reg)" using assms(2) by (simp add: valid_order_def)
  also have "\<dots> = length reg"
    using assms(1) by (metis wf_registry_def distinct_card length_map set_map)
  finally show ?thesis .
qed

lemma valid_order_direct:
  assumes "valid_order reg ord" and "(a, b) \<in> dep_rel reg"
    and "i < length ord" and "name (ord ! i) = a"
  shows "\<exists>j<i. name (ord ! j) = b"
proof -
  from assms(2) obtain m where m: "map_of reg a = Some m" "b \<in> set (dependencies m)"
    by (auto simp: dep_rel_def)
  from assms(1,3,4) have "map_of reg a = Some (ord ! i)"
    by (auto simp: valid_order_def)
  with m have "b \<in> set (dependencies (ord ! i))" by simp
  with assms(1,3) have "b \<in> name ` set (take i ord)"
    by (auto simp: valid_order_def deps_before_def)
  then obtain j where "j < length (take i ord)" "name (take i ord ! j) = b"
    by (auto simp: in_set_conv_nth)
  then show ?thesis by auto
qed

lemma valid_order_transitive:
  assumes "valid_order reg ord" and "(a, b) \<in> (dep_rel reg)\<^sup>+"
    and "i < length ord" and "name (ord ! i) = a"
  shows "\<exists>j<i. name (ord ! j) = b"
  using assms(2,3,4)
proof (induction arbitrary: i rule: trancl_induct)
  case (base y)
  then show ?case using valid_order_direct [OF assms(1)] by blast
next
  case (step y z)
  from step.IH [OF step.prems] obtain j where j: "j < i" "name (ord ! j) = y" by auto
  with step.prems have "j < length ord" by simp
  from valid_order_direct [OF assms(1) step.hyps(2) this j(2)]
  obtain l where "l < j" "name (ord ! l) = z" by auto
  with j(1) show ?case by (intro exI [of _ l]) simp
qed

lemma valid_order_acyclic:
  assumes "valid_order reg ord"
  shows "acyclic (dep_rel reg)"
proof (rule acyclicI, intro allI notI)
  fix x assume cyc: "(x, x) \<in> (dep_rel reg)\<^sup>+"
  then obtain y where "(x, y) \<in> dep_rel reg" by (auto dest: tranclD)
  then have "x \<in> fst ` set reg"
    by (auto simp: dep_rel_def dest!: map_of_SomeD intro: rev_image_eqI)
  from valid_order_index [OF assms this]
  obtain i where i: "i < length ord" "name (ord ! i) = x" by auto
  from valid_order_transitive [OF assms cyc i]
  obtain j where j: "j < i" "name (ord ! j) = x" by auto
  have "distinct (map name ord)" using assms by (simp add: valid_order_def)
  from distinct_names_index [OF this, of j i] i j have "j = i" by simp
  with j show False by simp
qed

lemma valid_order_deps_registered:
  assumes "wf_registry reg" and "valid_order reg ord"
  shows "deps_registered reg"
  unfolding deps_registered_def list_all_iff
proof (intro ballI, clarify)
  fix k m d assume km: "(k, m) \<in> set reg" and d: "d \<in> set (dependencies m)"
  with assms(1) have "(k, d) \<in> dep_rel reg" by (auto simp: dep_rel_def wf_registry_def)
  moreover from km have "k \<in> fst ` set reg" by (auto intro: rev_image_eqI)
  from valid_order_index [OF assms(2) this]
  obtain i where i: "i < length ord" "name (ord ! i) = k" by auto
  ultimately obtain j where j: "j < i" "name (ord ! j) = d"
    using valid_order_direct [OF assms(2)] by blast
  with i have "ord ! j \<in> set ord" by simp
  with j have "d \<in> name ` set ord" by (auto intro: rev_image_eqI)
  with assms(2) show "modules_has reg d" by (simp add: valid_order_def modules_has_def)
qed

lemma resolution_succeeds:
  assumes "wf_registry reg" and "deps_registered reg" and "acyclic (dep_rel reg)"
  shows "\<exists>ord. resolveExecutionOrder reg = Inr ord \<and> valid_order reg ord"
proof -
  note post = resolveExecutionOrder_correct [OF assms(1)]
  show ?thesis
  proof (cases "resolveExecutionOrder reg")
    case (Inr ord)
    with post show ?thesis by simp
  next
    case (Inl e)
    with post have ok: "resolution_error_ok reg e" by simp
    then show ?thesis
    proof (cases e)
      case (CircularDependency n)
      with ok assms(3) show ?thesis by (auto simp: acyclic_def)
    next
      case (MissingDependency a d)
      with ok obtain m where "map_of reg a = Some m" "d \<in> set (dependencies m)"
        and "\<not> modules_has reg d"
        by (auto simp: dep_rel_def)
      with assms(2) show ?thesis
        by (auto simp: deps_registered_def list_all_iff dest!: map_of_SomeD)
    qed simp_all
  qed
qed

text \<open>
  C1. When the names in the registry are distinct keys of their modules, every declared
  dependency is registered and the dependency graph has no cycle, \<open>resolveExecutionOrder\<close>
  returns an order that holds every registered module exactly once and in which every
  module comes strictly after each module it depends on, directly or through other
  modules.
\<close>

theorem C1_resolved_order_is_topological:
  assumes "wf_registry reg" and "deps_registered reg" and "acyclic (dep_rel reg)"
  shows "\<exists>ord. resolveExecutionOrder reg = Inr ord
           \<and> distinct (map name ord) \<and> set ord = set (getAllModules reg)
           \<and> length ord = length (getAllModules reg)
           \<and> (\<forall>i j. i < length ord \<and> j < length ord
                 \<and> (name (ord ! i), name (ord ! j)) \<in> (dep_rel reg)\<^sup>+ \<longrightarrow> j < i)"
proof -
  from resolution_succeeds [OF assms]
  obtain ord where r: "resolveExecutionOrder reg = Inr ord" and v: "valid_order reg ord"
    by auto
  have "j < i" if "i < length ord" "j < length ord"
    "(name (ord ! i), name (ord ! j)) \<in> (dep_rel reg)\<^sup>+" for i j
  proof -
    from valid_order_transitive [OF v that(3) that(1)]
    obtain l where l: "l < i" "name (ord ! l) = name (ord ! j)" by auto
    have "distinct (map name ord)" using v by (simp add: valid_order_def)
    from distinct_names_index [OF this, of l j] l that have "l = j" by simp
    with l show ?thesis by simp
  qed
  moreover have "distinct (map name ord)" using v by (simp add: valid_order_def)
  moreover note valid_order_set [OF assms(1) v] valid_order_length [OF assms(1) v]
  ultimately show ?thesis using r by (auto simp: getAllModules_def)
qed

section \<open>Rounding to binary64: bounds and monotonicity\<close>

lemma float_exponent_ge1:
  assumes "1 \<le> q"
  shows "2 powi float_exponent q \<le> q \<and> q < 2 powi (float_exponent q + 1)"
proof -
  let ?n = "\<lfloor>q\<rfloor>"
  have n: "0 < ?n" using assms by simp
  from bitlen_bounds [OF n]
  have lo: "2 ^ nat (bitlen ?n - 1) \<le> ?n" and hi: "?n < 2 ^ nat (bitlen ?n)" by simp_all
  have b: "1 \<le> bitlen ?n" using n by (auto simp: bitlen_alt_def)
  have e: "float_exponent q = bitlen ?n - 1" using assms by (simp add: float_exponent_def)
  have "(2::rat) powi (bitlen ?n - 1) = of_int (2 ^ nat (bitlen ?n - 1))"
    using b by (simp add: power_int_nonneg_exp)
  also have "\<dots> \<le> of_int ?n" using lo by (simp only: of_int_le_iff)
  also have "\<dots> \<le> q" by simp
  finally have 1: "2 powi float_exponent q \<le> q" by (simp add: e)
  have "?n + 1 \<le> 2 ^ nat (bitlen ?n)" using hi by simp
  then have "(of_int (?n + 1) :: rat) \<le> of_int (2 ^ nat (bitlen ?n))"
    by (simp only: of_int_le_iff)
  moreover have "q < of_int (?n + 1)" using floor_correct [of q] by simp
  moreover have "(2::rat) powi (bitlen ?n) = of_int (2 ^ nat (bitlen ?n))"
    using b by (simp add: power_int_nonneg_exp)
  ultimately have 2: "q < 2 powi (float_exponent q + 1)" by (simp add: e)
  from 1 2 show ?thesis ..
qed

lemma float_exponent_lt1:
  assumes "0 < q" and "q < 1"
  shows "2 powi float_exponent q \<le> q \<and> q < 2 powi (float_exponent q + 1)"
proof -
  let ?c = "\<lceil>1 / q\<rceil>"
  let ?m = "?c - 1"
  let ?b = "bitlen ?m"
  have inv: "1 < 1 / q" using assms by simp
  then have m: "0 < ?m" by (simp add: less_ceiling_iff)
  from bitlen_bounds [OF m]
  have lo: "2 ^ nat (?b - 1) \<le> ?m" and hi: "?m < 2 ^ nat ?b" by simp_all
  have b: "1 \<le> ?b" using m by (auto simp: bitlen_alt_def)
  have e: "float_exponent q = - ?b" using assms by (simp add: float_exponent_def)
  have "1 / q \<le> of_int ?c" by simp
  also have "?c \<le> 2 ^ nat ?b" using hi by simp
  then have "(of_int ?c :: rat) \<le> of_int (2 ^ nat ?b)" by (simp only: of_int_le_iff)
  finally have "1 / q \<le> 2 ^ nat ?b" by simp
  then have "1 / 2 ^ nat ?b \<le> q"
    using assms(1) by (simp add: field_simps)
  moreover have "(2::rat) powi (- ?b) = 1 / 2 ^ nat ?b"
    using b by (simp add: power_int_minus_divide power_int_nonneg_exp)
  ultimately have 1: "2 powi float_exponent q \<le> q" by (simp add: e)
  have "(of_int (2 ^ nat (?b - 1)) :: rat) \<le> of_int ?m" using lo by (simp only: of_int_le_iff)
  also have "(of_int ?m :: rat) < 1 / q"
    using ceiling_correct [of "1 / q"] by simp
  finally have "2 ^ nat (?b - 1) < 1 / q" by simp
  then have "q < 1 / 2 ^ nat (?b - 1)"
    using assms(1) by (simp add: field_simps)
  moreover have "(2::rat) powi (- ?b + 1) = 1 / 2 ^ nat (?b - 1)"
  proof -
    have "- ?b + 1 = - (?b - 1)" by simp
    then show ?thesis
      using b by (simp only: power_int_minus_divide) (simp add: power_int_nonneg_exp)
  qed
  ultimately have 2: "q < 2 powi (float_exponent q + 1)" by (simp add: e)
  from 1 2 show ?thesis ..
qed

lemma float_exponent_bounds:
  assumes "0 < q"
  shows "2 powi float_exponent q \<le> q" and "q < 2 powi (float_exponent q + 1)"
  using float_exponent_ge1 [of q] float_exponent_lt1 [of q] assms by (cases "1 \<le> q"; simp)+


lemma round_even_of_int: "round_even (of_int n) = n"
  by (simp add: round_even_def)

lemma round_even_range: "\<lfloor>y\<rfloor> \<le> round_even y \<and> round_even y \<le> \<lfloor>y\<rfloor> + 1"
  by (simp add: round_even_def Let_def)

lemma round_even_mono:
  assumes "y1 \<le> y2"
  shows "round_even y1 \<le> round_even y2"
proof (cases "\<lfloor>y1\<rfloor> = \<lfloor>y2\<rfloor>")
  case True
  with assms show ?thesis by (auto simp: round_even_def Let_def)
next
  case False
  with assms have "\<lfloor>y1\<rfloor> < \<lfloor>y2\<rfloor>" using floor_mono [OF assms] by simp
  then have "\<lfloor>y1\<rfloor> + 1 \<le> \<lfloor>y2\<rfloor>" by simp
  with round_even_range [of y1] round_even_range [of y2] show ?thesis by linarith
qed

lemma binary64_pos_def:
  "0 < q \<Longrightarrow> binary64 q =
     of_int (round_even (q / 2 powi (float_exponent q - 52))) * 2 powi (float_exponent q - 52)"
  by (simp add: binary64_def Let_def)

lemma binary64_range:
  assumes "0 < q"
  shows "2 powi float_exponent q \<le> binary64 q" and "binary64 q \<le> 2 powi (float_exponent q + 1)"
proof -
  let ?e = "float_exponent q"
  let ?u = "(2::rat) powi (?e - 52)"
  have u: "0 < ?u" by simp
  have lo_eq: "2 powi ?e = of_int (2 ^ 52) * ?u"
    by (simp add: power_int_diff)
  have hi_eq: "2 powi (?e + 1) = of_int (2 ^ 53) * ?u"
    by (simp add: power_int_diff power_int_add)
  have "of_int (2 ^ 52) * ?u \<le> q" using float_exponent_bounds(1) [OF assms] lo_eq by simp
  then have "of_int (2 ^ 52) \<le> q / ?u" using u by (simp add: pos_le_divide_eq)
  from round_even_mono [OF this] have "2 ^ 52 \<le> round_even (q / ?u)"
    by (simp only: round_even_of_int)
  then have "(of_int (2 ^ 52) :: rat) \<le> of_int (round_even (q / ?u))"
    by (simp only: of_int_le_iff)
  then have "of_int (2 ^ 52) * ?u \<le> of_int (round_even (q / ?u)) * ?u"
    using u by (simp only: mult_le_cancel_right_pos)
  then show "2 powi ?e \<le> binary64 q"
    using assms by (simp only: binary64_pos_def lo_eq)
  have "q \<le> of_int (2 ^ 53) * ?u"
    using float_exponent_bounds(2) [OF assms] hi_eq by simp
  then have "q / ?u \<le> of_int (2 ^ 53)" using u by (simp add: pos_divide_le_eq)
  from round_even_mono [OF this] have "round_even (q / ?u) \<le> 2 ^ 53"
    by (simp only: round_even_of_int)
  then have "(of_int (round_even (q / ?u)) :: rat) \<le> of_int (2 ^ 53)"
    by (simp only: of_int_le_iff)
  then have "of_int (round_even (q / ?u)) * ?u \<le> of_int (2 ^ 53) * ?u"
    using u by (simp only: mult_le_cancel_right_pos)
  then show "binary64 q \<le> 2 powi (?e + 1)"
    using assms by (simp only: binary64_pos_def hi_eq)
qed

lemma binary64_pos:
  assumes "0 < q"
  shows "0 < binary64 q"
proof -
  have "(0::rat) < 2 powi float_exponent q" by simp
  also have "\<dots> \<le> binary64 q" using binary64_range(1) [OF assms] .
  finally show ?thesis .
qed








subsection \<open>The percentage of calculateProgress\<close>





section \<open>The executor: what a run emits and records\<close>

lemma emit_simps [simp]:
  "emitted (emit e s) = emitted s @ [e]" "ctx (emit e s) = ctx s" "this (emit e s) = this s"
  by (simp_all add: emit_def)

lemma emitProgress_simps [simp]:
  "emitted (emitProgress u s) = emitted s @ [Progress u]" "ctx (emitProgress u s) = ctx s"
  "this (emitProgress u s) = this s"
  by (simp_all add: emitProgress_def)

lemma run_module_emitted:
  "emitted (snd (run_module ord m s)) = emitted s @ module_events ord m (execute m (ctx s))"
  by (simp add: run_module_def module_events_def progress_event_def Let_def split: sum.splits)

lemma run_module_passes:
  "\<not> escapes (execute m (ctx s)) \<Longrightarrow> fst (run_module ord m s) = Inr ()"
  by (auto simp: run_module_def escapes_def Let_def split: sum.splits)


lemma run_module_modules [simp]:
  "modules (this (snd (run_module ord m s))) = modules (this s)"
  by (simp add: run_module_def Let_def split: sum.splits)

lemma run_module_results:
  "moduleResults (this (snd (run_module ord m s))) =
     (case execute m (ctx s) of
        Inr result \<Rightarrow> (moduleResults (this s))(name m \<mapsto> result)
      | Inl v \<Rightarrow> moduleResults (this s))"
  by (simp add: run_module_def Let_def split: sum.splits)

lemma execute_modules_append:
  "execute_modules ord (xs @ ys) s =
     (case execute_modules ord xs s of
        (Inl v, s') \<Rightarrow> (Inl v, s')
      | (Inr u, s') \<Rightarrow> execute_modules ord ys s')"
  by (induction xs arbitrary: s) (simp_all split: prod.splits sum.splits)

lemma execute_modules_passed_append:
  assumes "fst (execute_modules ord xs s) = Inr ()"
  shows "execute_modules ord (xs @ ys) s = execute_modules ord ys (snd (execute_modules ord xs s))"
  using assms by (auto simp: execute_modules_append split: prod.splits sum.splits)


lemma execute_modules_single: "execute_modules ord [m] s = run_module ord m s"
  by (cases "run_module ord m s") (simp split: sum.splits)

lemma execute_modules_snoc:
  assumes "fst (execute_modules ord xs s) = Inr ()"
  shows "execute_modules ord (xs @ [m]) s = run_module ord m (snd (execute_modules ord xs s))"
  by (simp only: execute_modules_passed_append [OF assms] execute_modules_single)

text \<open>The loop as far as no catch block has thrown.\<close>

lemma execute_prefix:
  assumes "n \<le> length ord" and "\<forall>i<n. \<not> escapes (outcome ord s i)"
  shows "fst (execute_modules ord (take n ord) s) = Inr ()
         \<and> emitted (snd (execute_modules ord (take n ord) s)) =
             emitted s @ concat (map (\<lambda>i. module_events ord (ord ! i) (outcome ord s i)) [0..<n])"
  using assms
proof (induction n)
  case 0
  then show ?case by simp
next
  case (Suc n)
  let ?s = "snd (execute_modules ord (take n ord) s)"
  from Suc.prems have n: "n < length ord" and ok: "\<not> escapes (outcome ord s n)" by simp_all
  from Suc have passed: "fst (execute_modules ord (take n ord) s) = Inr ()"
    and events: "emitted ?s =
      emitted s @ concat (map (\<lambda>i. module_events ord (ord ! i) (outcome ord s i)) [0..<n])"
    by simp_all
  have "take (Suc n) ord = take n ord @ [ord ! n]"
    using n by (rule take_Suc_conv_app_nth)
  then have step: "execute_modules ord (take (Suc n) ord) s = run_module ord (ord ! n) ?s"
    by (simp only: execute_modules_snoc [OF passed])
  have here: "execute (ord ! n) (ctx ?s) = outcome ord s n" by (simp add: outcome_def)
  from ok have "fst (run_module ord (ord ! n) ?s) = Inr ()"
    by (intro run_module_passes) (simp only: here, simp)
  moreover have "emitted (snd (run_module ord (ord ! n) ?s)) =
      emitted s @ concat (map (\<lambda>i. module_events ord (ord ! i) (outcome ord s i)) [0..<Suc n])"
    by (simp add: run_module_emitted here events)
  ultimately show ?case by (simp only: step)
qed


lemma execute_order_emitted:
  assumes "\<forall>i<length ord. \<not> escapes (outcome ord s i)"
  shows "emitted (snd (execute_modules ord ord s)) =
     emitted s @ concat (map (\<lambda>i. module_events ord (ord ! i) (outcome ord s i))
                           [0..<length ord])"
  using execute_prefix [of "length ord" ord s] assms by simp

lemma execute_order_passed:
  assumes "\<forall>i<length ord. \<not> escapes (outcome ord s i)"
  shows "fst (execute_modules ord ord s) = Inr ()"
  using execute_prefix [of "length ord" ord s] assms by simp

lemma execute_modules_results_other:
  "k \<notin> name ` set ms \<Longrightarrow>
     moduleResults (this (snd (execute_modules ord ms s))) k = moduleResults (this s) k"
proof (induction ms arbitrary: s)
  case Nil
  then show ?case by simp
next
  case (Cons m ms)
  then have k: "k \<noteq> name m" "k \<notin> name ` set ms" by auto
  have one: "moduleResults (this (snd (run_module ord m s))) k = moduleResults (this s) k"
    using k(1) by (simp add: run_module_results split: sum.splits)
  show ?case
  proof (cases "run_module ord m s")
    case (Pair r s')
    with one have s': "moduleResults (this s') k = moduleResults (this s) k" by simp
    show ?thesis
    proof (cases r)
      case (Inl v)
      with Pair s' show ?thesis by simp
    next
      case (Inr u)
      with Pair s' Cons.IH [OF k(2), of s'] show ?thesis by simp
    qed
  qed
qed

lemma execute_order_results_at:
  assumes "distinct (map name ord)" and "\<forall>i<length ord. \<not> escapes (outcome ord s i)"
    and "i < length ord"
  shows "moduleResults (this (snd (execute_modules ord ord s))) (name (ord ! i)) =
           (case outcome ord s i of
              Inr result \<Rightarrow> Some result
            | Inl v \<Rightarrow> moduleResults (this s) (name (ord ! i)))"
proof -
  let ?m = "ord ! i"
  let ?s1 = "snd (execute_modules ord (take i ord) s)"
  have split: "ord = take i ord @ ?m # drop (Suc i) ord"
    using assms(3) by (rule id_take_nth_drop)
  have "distinct (map name (take i ord @ ?m # drop (Suc i) ord))"
    using assms(1) split by simp
  then have before: "name ?m \<notin> name ` set (take i ord)"
    and after: "name ?m \<notin> name ` set (drop (Suc i) ord)"
    by auto
  from assms(2,3) have "i \<le> length ord" "\<forall>j<i. \<not> escapes (outcome ord s j)" by simp_all
  from execute_prefix [OF this]
  have passed: "fst (execute_modules ord (take i ord) s) = Inr ()" by simp
  have here: "execute ?m (ctx ?s1) = outcome ord s i" by (simp add: outcome_def)
  from assms(2,3) have "\<not> escapes (execute ?m (ctx ?s1))" by (simp only: here) simp
  then have one: "fst (run_module ord ?m ?s1) = Inr ()" by (rule run_module_passes)
  have "execute_modules ord (take i ord @ ?m # drop (Suc i) ord) s
          = execute_modules ord (?m # drop (Suc i) ord) ?s1"
    by (rule execute_modules_passed_append [OF passed])
  also have "\<dots> = execute_modules ord (drop (Suc i) ord) (snd (run_module ord ?m ?s1))"
    using one by (cases "run_module ord ?m ?s1") simp
  finally have "execute_modules ord ord s
                  = execute_modules ord (drop (Suc i) ord) (snd (run_module ord ?m ?s1))"
    using split by simp
  then have "moduleResults (this (snd (execute_modules ord ord s))) (name ?m)
               = moduleResults (this (snd (run_module ord ?m ?s1))) (name ?m)"
    using execute_modules_results_other [OF after] by simp
  also have "\<dots> = (case outcome ord s i of
                       Inr result \<Rightarrow> Some result
                     | Inl v \<Rightarrow> moduleResults (this ?s1) (name ?m))"
    by (simp add: run_module_results here split: sum.splits)
  also have "moduleResults (this ?s1) (name ?m) = moduleResults (this s) (name ?m)"
    using before by (rule execute_modules_results_other)
  finally show ?thesis .
qed

lemma findIndex_nonneg_or_absent: "findIndex P xs = - 1 \<or> 0 \<le> findIndex P xs"
  by (induction xs) (auto simp: Let_def)



section \<open>Runs of executeAnalysis\<close>

lemma initial_run_simps [simp]:
  "modules (this (initial_run orch job)) = modules orch"
  "moduleResults (this (initial_run orch job)) = Map.empty"
  "emitted (initial_run orch job) = []"
  by (simp_all add: initial_run_def)

lemma executeAnalysis_resolved:
  assumes "resolveExecutionOrder (modules orch) = Inr ord"
    and "\<forall>i<length ord. \<not> escapes (outcome ord (initial_run orch job) i)"
  shows "executeAnalysis orch job =
           (Inr (aggregate (moduleResults
                   (this (snd (execute_modules ord ord (initial_run orch job)))))),
                 emitted (snd (execute_modules ord ord (initial_run orch job)))
                   @ [Complete (aggregate (moduleResults
                        (this (snd (execute_modules ord ord (initial_run orch job))))))],
                 this (snd (execute_modules ord ord (initial_run orch job))))"
proof (cases "execute_modules ord ord (initial_run orch job)")
  case (Pair r s)
  with execute_order_passed [OF assms(2)] have "r = Inr ()" by simp
  with Pair assms(1) show ?thesis by (simp add: executeAnalysis_def Let_def)
qed

lemma executeAnalysis_rejected:
  assumes "resolveExecutionOrder (modules orch) = Inl e"
  shows "executeAnalysis orch job =
           (Inl (OrchestratorError e), [ErrorEvent (OrchestratorError e)],
                 orch\<lparr>moduleResults := Map.empty\<rparr>)"
  using assms by (simp add: executeAnalysis_def outer_catch_def Let_def initial_run_def)


lemma resolved_order_distinct:
  assumes "wf_registry reg" and "resolveExecutionOrder reg = Inr ord"
  shows "distinct (map name ord)"
  using resolveExecutionOrder_correct [OF assms(1)] assms(2) by (simp add: valid_order_def)



lemma run_events:
  assumes "\<forall>i<length ord. \<not> escapes (outcome ord (initial_run orch job) i)"
  shows "emitted (snd (execute_modules ord ord (initial_run orch job))) =
     concat (map (\<lambda>i. module_events ord (ord ! i) (outcome ord (initial_run orch job) i))
               [0..<length ord])"
  by (simp add: execute_order_emitted [OF assms])

lemma module_events_in_run:
  assumes "\<forall>i<length ord. \<not> escapes (outcome ord (initial_run orch job) i)"
    and "i < length ord"
  shows "set (module_events ord (ord ! i) (outcome ord (initial_run orch job) i))
           \<subseteq> set (emitted (snd (execute_modules ord ord (initial_run orch job))))"
  using assms(2) by (auto simp: run_events [OF assms(1)])


lemma run_results_at:
  assumes "distinct (map name ord)"
    and "\<forall>i<length ord. \<not> escapes (outcome ord (initial_run orch job) i)"
    and "i < length ord"
  shows "moduleResults (this (snd (execute_modules ord ord (initial_run orch job))))
           (name (ord ! i))
           = (case outcome ord (initial_run orch job) i of
                Inr result \<Rightarrow> Some result | Inl v \<Rightarrow> None)"
  using execute_order_results_at [OF assms, of]
  by (simp split: sum.splits)

lemma find_position:
  assumes "distinct (map name ord)" and "i < length ord"
  shows "find (\<lambda>k. name (ord ! k) = name (ord ! i)) [0..<length ord] = Some i"
proof -
  have "\<forall>j<i. name (ord ! j) \<noteq> name (ord ! i)"
  proof (intro allI impI notI)
    fix j assume j: "j < i" "name (ord ! j) = name (ord ! i)"
    then have "j < length ord" using assms(2) by simp
    from distinct_names_index [OF assms(1) this assms(2) j(2)] j(1) show False by simp
  qed
  with assms(2) show ?thesis by (auto simp: find_Some_iff intro!: exI [of _ i])
qed

lemma result_of_at:
  assumes "distinct (map name ord)" and "i < length ord"
  shows "result_of ord s0 (name (ord ! i))
           = (case outcome ord s0 i of Inr result \<Rightarrow> result | Inl v \<Rightarrow> JUndefined)"
  by (simp add: result_of_def find_position [OF assms])

text \<open>What \<open>this.moduleResults.get\<close> returns after the loop.\<close>

lemma run_results_get:
  assumes "distinct (map name ord)"
    and "\<forall>i<length ord. \<not> escapes (outcome ord (initial_run orch job) i)"
  shows "results_get (moduleResults (this (snd (execute_modules ord ord (initial_run orch job)))))
           n
           = result_of ord (initial_run orch job) n"
proof (cases "n \<in> name ` set ord")
  case True
  then obtain i where i: "i < length ord" "n = name (ord ! i)"
    by (auto simp: in_set_conv_nth)
  show ?thesis
    unfolding i(2) result_of_at [OF assms(1) i(1)]
    by (simp add: results_get_def run_results_at [OF assms i(1)] split: sum.splits)
next
  case False
  then have "\<forall>k<length ord. name (ord ! k) \<noteq> n" by auto
  then have "find (\<lambda>k. name (ord ! k) = n) [0..<length ord] = None"
    by (simp add: find_None_iff)
  then have "result_of ord (initial_run orch job) n = JUndefined"
    by (simp add: result_of_def)
  with execute_modules_results_other [OF False, of ord "initial_run orch job"]
  show ?thesis by (simp add: results_get_def)
qed

lemma result_slot_aggregate:
  "n \<in> set well_known_names \<Longrightarrow> result_slot n (aggregate mr) = Some (results_get mr n)"
  by (auto simp: result_slot_def aggregate_def well_known_names_def)

text \<open>
  C2 (amended). In a run that reaches the loop, let the value with which any module
  rejects be an \<open>Error\<close> or a value that \<open>String\<close> converts, let one module's \<open>execute\<close>
  reject and another's resolve. Then \<open>executeAnalysis\<close> resolves; \<open>moduleStart\<close> is
  emitted for both, \<open>moduleError\<close> for the first with the \<open>Error\<close> made of the value it
  rejected with, \<open>moduleComplete\<close> for the second with its result, and \<open>complete\<close> last.
  The aggregate consists of eight slots, one for each of the eight well-known module
  names, and each holds the result of the module of that name, or \<open>undefined\<close> when that
  module rejected or is not registered. So the result of the succeeding module is in the
  aggregate, in its slot, when its name is one of the eight, and the slot of the failing
  module is \<open>undefined\<close> when its name is one of the eight; the results of modules with
  other names are not in the aggregate.
\<close>

theorem C2_failure_does_not_abort_run:
  assumes "wf_registry (modules orch)"
    and "resolveExecutionOrder (modules orch) = Inr ord"
    and "\<forall>k<length ord. \<not> escapes (outcome ord (initial_run orch job) k)"
    and "i < length ord" and "outcome ord (initial_run orch job) i = Inl v"
    and "j < length ord" and "outcome ord (initial_run orch job) j = Inr r"
  shows "\<exists>res evs orch' err.
           executeAnalysis orch job = (Inr res, evs @ [Complete res], orch')
           \<and> to_error v = Inr err
           \<and> ModuleStart (name (ord ! i)) \<in> set evs \<and> ModuleStart (name (ord ! j)) \<in> set evs
           \<and> ModuleError (name (ord ! i)) err \<in> set evs
           \<and> ModuleComplete (name (ord ! j)) r \<in> set evs
           \<and> (name (ord ! j) \<in> set well_known_names
                \<longrightarrow> result_slot (name (ord ! j)) res = Some r)
           \<and> (name (ord ! i) \<in> set well_known_names
                \<longrightarrow> result_slot (name (ord ! i)) res = Some JUndefined)
           \<and> res = \<lparr>crawlData = result_of ord (initial_run orch job) ''crawler'',
                    performanceData = result_of ord (initial_run orch job) ''performance'',
                    securityData = result_of ord (initial_run orch job) ''security'',
                    technologyData = result_of ord (initial_run orch job) ''technology'',
                    seoData = result_of ord (initial_run orch job) ''seo'',
                    accessibilityData = result_of ord (initial_run orch job) ''accessibility'',
                    cssData = result_of ord (initial_run orch job) ''css'',
                    functionalityData = result_of ord (initial_run orch job) ''functionality''\<rparr>"
proof -
  let ?init = "initial_run orch job"
  let ?fin = "snd (execute_modules ord ord ?init)"
  let ?res = "aggregate (moduleResults (this ?fin))"
  have d: "distinct (map name ord)" using assms(1,2) by (rule resolved_order_distinct)
  note get = run_results_get [OF d assms(3)]
  from assms(3,4,5) have "\<not> isl (to_error v)" by (auto simp: escapes_def)
  then obtain err where err: "to_error v = Inr err" by (cases "to_error v") simp_all
  have "set [ModuleStart (name (ord ! i)), ModuleError (name (ord ! i)) err] \<subseteq> set (emitted ?fin)"
    using module_events_in_run [OF assms(3,4)] assms(5) err
    by (simp add: module_events_def)
  then have failing: "ModuleStart (name (ord ! i)) \<in> set (emitted ?fin)"
    "ModuleError (name (ord ! i)) err \<in> set (emitted ?fin)"
    by simp_all
  have "set [ModuleStart (name (ord ! j)), ModuleComplete (name (ord ! j)) r]
          \<subseteq> set (emitted ?fin)"
    using module_events_in_run [OF assms(3,6)] assms(7)
    by (simp add: module_events_def)
  then have succeeding: "ModuleStart (name (ord ! j)) \<in> set (emitted ?fin)"
    "ModuleComplete (name (ord ! j)) r \<in> set (emitted ?fin)"
    by simp_all
  have slot_j: "name (ord ! j) \<in> set well_known_names
                  \<longrightarrow> result_slot (name (ord ! j)) ?res = Some r"
    using assms(7) by (simp add: result_slot_aggregate get result_of_at [OF d assms(6)])
  have slot_i: "name (ord ! i) \<in> set well_known_names
                  \<longrightarrow> result_slot (name (ord ! i)) ?res = Some JUndefined"
    using assms(5) by (simp add: result_slot_aggregate get result_of_at [OF d assms(4)])
  have slots: "?res = \<lparr>crawlData = result_of ord ?init ''crawler'',
                    performanceData = result_of ord ?init ''performance'',
                    securityData = result_of ord ?init ''security'',
                    technologyData = result_of ord ?init ''technology'',
                    seoData = result_of ord ?init ''seo'',
                    accessibilityData = result_of ord ?init ''accessibility'',
                    cssData = result_of ord ?init ''css'',
                    functionalityData = result_of ord ?init ''functionality''\<rparr>"
    by (simp only: aggregate_def get)
  note run = executeAnalysis_resolved [OF assms(2,3)]
  show ?thesis
    by (intro exI [of _ ?res] exI [of _ "emitted ?fin"] exI [of _ "this ?fin"] exI [of _ err] conjI)
       (fact run err failing succeeding slot_i slot_j slots)+
qed

subsection \<open>Failed resolution\<close>

lemma resolution_fails:
  assumes "wf_registry reg" and "\<not> acyclic (dep_rel reg) \<or> \<not> deps_registered reg"
  shows "\<exists>e. resolveExecutionOrder reg = Inl e \<and> resolution_error_ok reg e"
proof -
  note post = resolveExecutionOrder_correct [OF assms(1)]
  show ?thesis
  proof (cases "resolveExecutionOrder reg")
    case (Inl e)
    with post show ?thesis by simp
  next
    case (Inr ord)
    with post have "valid_order reg ord" by simp
    with assms valid_order_acyclic [of reg ord] valid_order_deps_registered [of reg ord]
    show ?thesis by blast
  qed
qed

lemma resolution_error_cases:
  assumes "resolution_error_ok reg e"
  shows "(\<exists>n. e = CircularDependency n \<and> (n, n) \<in> (dep_rel reg)\<^sup>+)
         \<or> (\<exists>a d. e = MissingDependency a d \<and> (a, d) \<in> dep_rel reg \<and> \<not> modules_has reg d)"
  using assms by (cases e) simp_all

lemma missing_dependency_not_registered:
  assumes "(a, d) \<in> dep_rel reg" and "\<not> modules_has reg d"
  shows "\<not> deps_registered reg"
proof -
  from assms(1) obtain m where "map_of reg a = Some m" "d \<in> set (dependencies m)"
    by (auto simp: dep_rel_def)
  with assms(2) show ?thesis
    by (auto simp: deps_registered_def list_all_iff dest!: map_of_SomeD)
qed

text \<open>
  C3 (amended). When the dependency graph of the registry has a cycle, \<open>executeAnalysis\<close>
  rejects and the only event of the run is \<open>error\<close>: no \<open>moduleStart\<close>, so no module is
  executed. The error is the circular-dependency error, naming a module that lies on a
  cycle, or else the missing-dependency error of an unregistered dependency that the
  traversal met before it closed a cycle. When every declared dependency is registered,
  it is the circular-dependency error.
\<close>

theorem C3_cycle_rejects_before_any_module:
  assumes "wf_registry (modules orch)" and "\<not> acyclic (dep_rel (modules orch))"
  shows "\<exists>e. executeAnalysis orch job
               = (Inl (OrchestratorError e), [ErrorEvent (OrchestratorError e)],
                       orch\<lparr>moduleResults := Map.empty\<rparr>)
           \<and> ((\<exists>n. e = CircularDependency n \<and> (n, n) \<in> (dep_rel (modules orch))\<^sup>+)
              \<or> (\<exists>a d. e = MissingDependency a d \<and> (a, d) \<in> dep_rel (modules orch)
                        \<and> \<not> modules_has (modules orch) d))
           \<and> (deps_registered (modules orch)
                \<longrightarrow> (\<exists>n. e = CircularDependency n \<and> (n, n) \<in> (dep_rel (modules orch))\<^sup>+))"
proof -
  from resolution_fails [OF assms(1)] assms(2)
  obtain e where e: "resolveExecutionOrder (modules orch) = Inl e"
    and ok: "resolution_error_ok (modules orch) e"
    by blast
  from resolution_error_cases [OF ok] missing_dependency_not_registered [of _ _ "modules orch"]
  have "deps_registered (modules orch)
          \<longrightarrow> (\<exists>n. e = CircularDependency n \<and> (n, n) \<in> (dep_rel (modules orch))\<^sup>+)"
    by blast
  with executeAnalysis_rejected [OF e, of job] resolution_error_cases [OF ok]
  show ?thesis by blast
qed

text \<open>
  C4 (amended). When some registered module declares a dependency that is not
  registered, \<open>executeAnalysis\<close> rejects and the only event of the run is \<open>error\<close>, so no
  module is executed. The error is the missing-dependency error, naming a registered
  module and a dependency of it that is not registered, or else the circular-dependency
  error of a cycle that the traversal closed first. When the dependency graph has no
  cycle, it is the missing-dependency error.
\<close>

theorem C4_missing_dependency_rejects_before_any_module:
  assumes "wf_registry (modules orch)" and "\<not> deps_registered (modules orch)"
  shows "\<exists>e. executeAnalysis orch job
               = (Inl (OrchestratorError e), [ErrorEvent (OrchestratorError e)],
                       orch\<lparr>moduleResults := Map.empty\<rparr>)
           \<and> ((\<exists>a d. e = MissingDependency a d \<and> (a, d) \<in> dep_rel (modules orch)
                        \<and> \<not> modules_has (modules orch) d)
              \<or> (\<exists>n. e = CircularDependency n \<and> (n, n) \<in> (dep_rel (modules orch))\<^sup>+))
           \<and> (acyclic (dep_rel (modules orch))
                \<longrightarrow> (\<exists>a d. e = MissingDependency a d \<and> (a, d) \<in> dep_rel (modules orch)
                        \<and> \<not> modules_has (modules orch) d))"
proof -
  from resolution_fails [OF assms(1)] assms(2)
  obtain e where e: "resolveExecutionOrder (modules orch) = Inl e"
    and ok: "resolution_error_ok (modules orch) e"
    by blast
  from resolution_error_cases [OF ok]
  have "acyclic (dep_rel (modules orch))
          \<longrightarrow> (\<exists>a d. e = MissingDependency a d \<and> (a, d) \<in> dep_rel (modules orch)
                        \<and> \<not> modules_has (modules orch) d)"
    by (auto simp: acyclic_def)
  with executeAnalysis_rejected [OF e, of job] resolution_error_cases [OF ok]
  show ?thesis by blast
qed

section \<open>Progress events\<close>


lemma progress_values_concat:
  "progress_values (concat xss) = concat (map progress_values xss)"
  by (induction xss) (simp_all add: progress_values_def)


lemma module_events_progress:
  "filter is_progress (module_events ord m oc) =
     (case oc of Inr result \<Rightarrow> [progress_event ord m] | Inl err \<Rightarrow> [])"
  by (simp add: module_events_def progress_event_def split: sum.splits)

lemma module_events_escaped:
  "escapes oc \<Longrightarrow> filter is_progress (module_events ord m oc) = []"
  by (simp add: module_events_progress escapes_def split: sum.splits)











section \<open>The claims on concrete registries\<close>

lemmas register_eval =
  register_all_def registerModule_def raw_def typed_def modules_has_def

subsection \<open>C1 on the four modules of the specification\<close>

lemma diamond_eq:
  "diamond =
    [(''seo'', \<lparr>name = ''seo'', phase = ''seo'',
               dependencies = [''performance'', ''technology''],
               execute = succeed (JNumber 4)\<rparr>),
     (''performance'', \<lparr>name = ''performance'', phase = ''performance'',
               dependencies = [''crawler''], execute = succeed (JNumber 2)\<rparr>),
     (''technology'', \<lparr>name = ''technology'', phase = ''technology'',
               dependencies = [''crawler''], execute = succeed (JNumber 3)\<rparr>),
     (''crawler'', \<lparr>name = ''crawler'', phase = ''crawl'', dependencies = [],
               execute = succeed (JNumber 1)\<rparr>)]"
  by (simp add: diamond_def register_eval)

lemma diamond_deps_registered: "deps_registered diamond"
  by (simp add: diamond_eq deps_registered_def modules_has_def)

lemma diamond_acyclic: "acyclic (dep_rel diamond)"
proof (rule acyclicI_order
    [where f = "\<lambda>n. if n = ''crawler'' then 0 else if n = ''seo'' then 2 else (1::nat)"])
  fix a b assume "(a, b) \<in> dep_rel diamond"
  then show "(if b = ''crawler'' then 0 else if b = ''seo'' then 2 else (1::nat))
           < (if a = ''crawler'' then 0 else if a = ''seo'' then 2 else 1)"
    by (auto simp: dep_rel_def diamond_eq split: if_splits)
qed

theorem C1_resolved_order_is_topological_witness:
  "wf_registry diamond \<and> deps_registered diamond \<and> acyclic (dep_rel diamond)
   \<and> (\<exists>ord. resolveExecutionOrder diamond = Inr ord
           \<and> map name ord = [''crawler'', ''performance'', ''technology'', ''seo'']
           \<and> distinct (map name ord) \<and> set ord = set (getAllModules diamond)
           \<and> length ord = length (getAllModules diamond)
           \<and> (\<forall>i j. i < length ord \<and> j < length ord
                 \<and> (name (ord ! i), name (ord ! j)) \<in> (dep_rel diamond)\<^sup>+ \<longrightarrow> j < i))"
proof -
  have wf: "wf_registry diamond" unfolding diamond_def by (rule register_all_wf)
  from C1_resolved_order_is_topological [OF wf diamond_deps_registered diamond_acyclic]
  obtain ord where ord: "resolveExecutionOrder diamond = Inr ord"
    "distinct (map name ord)" "set ord = set (getAllModules diamond)"
    "length ord = length (getAllModules diamond)"
    "\<forall>i j. i < length ord \<and> j < length ord
        \<and> (name (ord ! i), name (ord ! j)) \<in> (dep_rel diamond)\<^sup>+ \<longrightarrow> j < i"
    by blast
  have "map_sum id (map name) (resolveExecutionOrder diamond)
          = Inr [''crawler'', ''performance'', ''technology'', ''seo'']"
    by (simp add: resolveExecutionOrder_def diamond_eq getAllModules_def modules_has_def
        visit.simps)
  with ord(1) have names: "map name ord = [''crawler'', ''performance'', ''technology'', ''seo'']"
    by simp
  note deps = diamond_deps_registered and acyc = diamond_acyclic
  show ?thesis by (intro conjI exI [of _ ord]) fact+
qed

subsection \<open>C2: a failing and a succeeding module\<close>

lemma security_fails_eq:
  "security_fails =
     [(''security'', \<lparr>name = ''security'', phase = ''security'', dependencies = [],
                      execute = fail ''boom''\<rparr>),
      (''seo'', \<lparr>name = ''seo'', phase = ''seo'', dependencies = [],
                 execute = succeed (JString ''ok'')\<rparr>)]"
  by (simp add: security_fails_def register_eval)

lemma security_fails_order:
  "resolveExecutionOrder security_fails = Inr (getAllModules security_fails)"
  by (simp add: resolveExecutionOrder_def security_fails_eq getAllModules_def modules_has_def
      visit.simps)

theorem C2_failure_does_not_abort_run_witness:
  "wf_registry (modules (new_orchestrator security_fails))
   \<and> resolveExecutionOrder (modules (new_orchestrator security_fails))
       = Inr (getAllModules security_fails)
   \<and> length (getAllModules security_fails) = 2
   \<and> outcome (getAllModules security_fails)
        (initial_run (new_orchestrator security_fails) job1) 0 = Inl (ErrorObject ''boom'')
   \<and> outcome (getAllModules security_fails)
        (initial_run (new_orchestrator security_fails) job1) 1 = Inr (JString ''ok'')
   \<and> (\<exists>res evs orch'.
         executeAnalysis (new_orchestrator security_fails) job1
           = (Inr res, evs @ [Complete res], orch')
         \<and> ModuleStart ''security'' \<in> set evs \<and> ModuleStart ''seo'' \<in> set evs
         \<and> ModuleError ''security'' ''boom'' \<in> set evs
         \<and> ModuleComplete ''seo'' (JString ''ok'') \<in> set evs
         \<and> res = \<lparr>crawlData = JUndefined, performanceData = JUndefined,
                  securityData = JUndefined, technologyData = JUndefined,
                  seoData = JString ''ok'', accessibilityData = JUndefined,
                  cssData = JUndefined, functionalityData = JUndefined\<rparr>)"
proof -
  let ?orch = "new_orchestrator security_fails"
  let ?ord = "getAllModules security_fails"
  let ?init = "initial_run ?orch job1"
  have wf: "wf_registry (modules ?orch)"
    by (simp add: new_orchestrator_def security_fails_def register_all_wf)
  have ord: "resolveExecutionOrder (modules ?orch) = Inr ?ord"
    by (simp add: new_orchestrator_def security_fails_order)
  have len: "length ?ord = 2" by (simp add: security_fails_eq getAllModules_def)
  then have i: "0 < length ?ord" and j: "1 < length ?ord" by simp_all
  have oi: "outcome ?ord ?init 0 = Inl (ErrorObject ''boom'')"
    by (simp add: outcome_def security_fails_eq getAllModules_def fail_def)
  have oj: "outcome ?ord ?init 1 = Inr (JString ''ok'')"
    by (simp add: outcome_def security_fails_eq getAllModules_def succeed_def)
  have pass: "\<forall>k<length ?ord. \<not> escapes (outcome ?ord ?init k)"
  proof (intro allI impI)
    fix k assume "k < length ?ord"
    then consider "k = 0" | "k = 1" using len by linarith
    then show "\<not> escapes (outcome ?ord ?init k)"
      using oi oj by cases (simp_all add: escapes_def)
  qed
  have names: "name (?ord ! 0) = ''security''" "name (?ord ! 1) = ''seo''"
    by (simp_all add: security_fails_eq getAllModules_def)
  have d: "distinct (map name ?ord)" by (simp add: security_fails_eq getAllModules_def)
  have absent: "result_of ?ord ?init n = JUndefined" if "n \<noteq> ''security''" "n \<noteq> ''seo''" for n
    using that by (simp add: result_of_def upt_rec security_fails_eq getAllModules_def)
  have "result_of ?ord ?init (name (?ord ! 1)) = JString ''ok''"
    by (simp only: result_of_at [OF d j] oj sum.case)
  then have seo: "result_of ?ord ?init ''seo'' = JString ''ok''" by (simp only: names)
  have "result_of ?ord ?init (name (?ord ! 0)) = JUndefined"
    by (simp only: result_of_at [OF d i] oi sum.case)
  then have security: "result_of ?ord ?init ''security'' = JUndefined" by (simp only: names)
  have found: "result_of ?ord ?init ''seo'' = JString ''ok''"
    "result_of ?ord ?init ''security'' = JUndefined"
    "result_of ?ord ?init ''crawler'' = JUndefined"
    "result_of ?ord ?init ''performance'' = JUndefined"
    "result_of ?ord ?init ''technology'' = JUndefined"
    "result_of ?ord ?init ''accessibility'' = JUndefined"
    "result_of ?ord ?init ''css'' = JUndefined"
    "result_of ?ord ?init ''functionality'' = JUndefined"
    by (simp_all add: seo security absent)
  from C2_failure_does_not_abort_run [OF wf ord pass i oi j oj]
  obtain res evs orch' err where run:
    "executeAnalysis ?orch job1 = (Inr res, evs @ [Complete res], orch')"
    "to_error (ErrorObject ''boom'') = Inr err"
    "ModuleStart ''security'' \<in> set evs" "ModuleStart ''seo'' \<in> set evs"
    "ModuleError ''security'' err \<in> set evs"
    "ModuleComplete ''seo'' (JString ''ok'') \<in> set evs"
    "res = \<lparr>crawlData = JUndefined, performanceData = JUndefined,
            securityData = JUndefined, technologyData = JUndefined,
            seoData = JString ''ok'', accessibilityData = JUndefined,
            cssData = JUndefined, functionalityData = JUndefined\<rparr>"
    unfolding names found by blast
  from run(2) have "err = ''boom''" by simp
  with run(5) have error: "ModuleError ''security'' ''boom'' \<in> set evs" by simp
  note run1 = run(1) and run3 = run(3) and run4 = run(4) and run6 = run(6) and run7 = run(7)
  show ?thesis
    by (intro conjI exI [of _ res] exI [of _ evs] exI [of _ orch']) fact+
qed

lemma a_fails_eq:
  "a_fails =
     [(''a'', \<lparr>name = ''a'', phase = ''security'', dependencies = [], execute = fail ''boom''\<rparr>),
      (''b'', \<lparr>name = ''b'', phase = ''seo'', dependencies = [],
               execute = succeed (JString ''ok'')\<rparr>)]"
  by (simp add: a_fails_def register_eval)

lemma seo_then_bare_security_eq:
  "seo_then_bare_security =
     [(''seo'', \<lparr>name = ''seo'', phase = ''seo'', dependencies = [],
                 execute = succeed (JString ''ok'')\<rparr>),
      (''security'', \<lparr>name = ''security'', phase = ''security'', dependencies = [],
                      execute = fail_with null_prototype_object\<rparr>)]"
  by (simp add: seo_then_bare_security_def register_eval)

lemma half: "Math_round (js_mul (js_div 1 2) 100) = 50"
  by code_simp

lemmas run_eval =
  executeAnalysis_def outer_catch_def resolveExecutionOrder_def getAllModules_def
  modules_has_def new_orchestrator_def initial_run_def run_module_def emit_def
  emitProgress_def Let_def succeed_def fail_def fail_with_def null_prototype_object_def
  aggregate_def results_get_def events_of_def visit.simps

text \<open>
  C2 as stated fails in two ways. A module that rejects with a value that \<open>String\<close>
  cannot convert aborts the run: \<open>seo\<close> succeeds, \<open>security\<close> rejects with
  \<open>Object.create(null)\<close>, and \<open>executeAnalysis\<close> rejects with the \<open>TypeError\<close>, after
  \<open>error\<close> and without \<open>moduleError\<close> or \<open>complete\<close>. And the result of a module whose
  name is none of the eight well-known ones is not in the aggregate: \<open>a\<close> rejects with an
  \<open>Error\<close>, \<open>b\<close> succeeds with the result \<open>"ok"\<close>, and every slot of the aggregate is
  \<open>undefined\<close>.
\<close>

theorem C2_aborted_run_and_missing_result_counterexample:
  "executeAnalysis (new_orchestrator seo_then_bare_security) job1
     = (Inl (Thrown (ErrorObject ''Cannot convert object to primitive value'')),
        [ModuleStart ''seo'', ModuleComplete ''seo'' (JString ''ok''),
         Progress \<lparr>update_phase = ''seo'', progress = 50, currentTask = ''Completed seo'',
                   discoveries = [],
                   metrics = \<lparr>pagesCrawled = 0, issuesFound = 0, technologiesDetected = 0,
                              resourcesAnalyzed = 0\<rparr>\<rparr>,
         ModuleStart ''security'',
         ErrorEvent (Thrown (ErrorObject ''Cannot convert object to primitive value''))],
        \<lparr>modules = seo_then_bare_security, moduleResults = [''seo'' \<mapsto> JString ''ok'']\<rparr>)
   \<and> fst (executeAnalysis (new_orchestrator a_fails) job1)
     = Inr \<lparr>crawlData = JUndefined, performanceData = JUndefined,
            securityData = JUndefined, technologyData = JUndefined,
            seoData = JUndefined, accessibilityData = JUndefined,
            cssData = JUndefined, functionalityData = JUndefined\<rparr>
   \<and> take 4 (events_of (executeAnalysis (new_orchestrator a_fails) job1))
     = [ModuleStart ''a'', ModuleError ''a'' ''boom'',
        ModuleStart ''b'', ModuleComplete ''b'' (JString ''ok'')]"
proof -
  have aborted: "executeAnalysis (new_orchestrator seo_then_bare_security) job1
     = (Inl (Thrown (ErrorObject ''Cannot convert object to primitive value'')),
        [ModuleStart ''seo'', ModuleComplete ''seo'' (JString ''ok''),
         Progress \<lparr>update_phase = ''seo'', progress = 50, currentTask = ''Completed seo'',
                   discoveries = [],
                   metrics = \<lparr>pagesCrawled = 0, issuesFound = 0, technologiesDetected = 0,
                              resourcesAnalyzed = 0\<rparr>\<rparr>,
         ModuleStart ''security'',
         ErrorEvent (Thrown (ErrorObject ''Cannot convert object to primitive value''))],
        \<lparr>modules = seo_then_bare_security, moduleResults = [''seo'' \<mapsto> JString ''ok'']\<rparr>)"
    by (simp add: run_eval seo_then_bare_security_eq calculateProgress_def half)
  have missing:
    "fst (executeAnalysis (new_orchestrator a_fails) job1)
       = Inr \<lparr>crawlData = JUndefined, performanceData = JUndefined,
              securityData = JUndefined, technologyData = JUndefined,
              seoData = JUndefined, accessibilityData = JUndefined,
              cssData = JUndefined, functionalityData = JUndefined\<rparr>"
    "take 4 (events_of (executeAnalysis (new_orchestrator a_fails) job1))
       = [ModuleStart ''a'', ModuleError ''a'' ''boom'',
          ModuleStart ''b'', ModuleComplete ''b'' (JString ''ok'')]"
    by (simp_all add: run_eval a_fails_eq)
  from aborted missing show ?thesis by (intro conjI)
qed

subsection \<open>C3 and C4: cycles and unregistered dependencies\<close>

lemma cycle_ab_eq:
  "cycle_ab =
     [(''a'', \<lparr>name = ''a'', phase = ''seo'', dependencies = [''b''], execute = succeed JNull\<rparr>),
      (''b'', \<lparr>name = ''b'', phase = ''css'', dependencies = [''a''], execute = succeed JNull\<rparr>)]"
  by (simp add: cycle_ab_def register_eval)

lemma cycle_ab_cycle: "(''a'', ''a'') \<in> (dep_rel cycle_ab)\<^sup>+"
proof -
  have "(''a'', ''b'') \<in> dep_rel cycle_ab" "(''b'', ''a'') \<in> dep_rel cycle_ab"
    by (simp_all add: dep_rel_def cycle_ab_eq)
  then show ?thesis by (rule trancl_into_trancl2 [OF _ r_into_trancl])
qed

theorem C3_cycle_rejects_before_any_module_witness:
  "wf_registry (modules (new_orchestrator cycle_ab))
   \<and> \<not> acyclic (dep_rel (modules (new_orchestrator cycle_ab)))
   \<and> deps_registered (modules (new_orchestrator cycle_ab))
   \<and> (\<exists>n. executeAnalysis (new_orchestrator cycle_ab) job1
             = (Inl (OrchestratorError (CircularDependency n)),
                [ErrorEvent (OrchestratorError (CircularDependency n))],
                new_orchestrator cycle_ab)
          \<and> (n, n) \<in> (dep_rel cycle_ab)\<^sup>+)"
proof -
  let ?orch = "new_orchestrator cycle_ab"
  have m: "modules ?orch = cycle_ab" by (simp add: new_orchestrator_def)
  have same: "?orch\<lparr>moduleResults := Map.empty\<rparr> = ?orch" by (simp add: new_orchestrator_def)
  have wf: "wf_registry (modules ?orch)"
    by (simp add: new_orchestrator_def cycle_ab_def register_all_wf)
  have cyc: "\<not> acyclic (dep_rel (modules ?orch))"
    using cycle_ab_cycle by (auto simp: m acyclic_def)
  have deps: "deps_registered (modules ?orch)"
    by (simp add: new_orchestrator_def cycle_ab_eq deps_registered_def modules_has_def)
  from C3_cycle_rejects_before_any_module [OF wf cyc, of job1] deps
  obtain n where "executeAnalysis ?orch job1
      = (Inl (OrchestratorError (CircularDependency n)),
         [ErrorEvent (OrchestratorError (CircularDependency n))],
         ?orch\<lparr>moduleResults := Map.empty\<rparr>)"
    and "(n, n) \<in> (dep_rel (modules ?orch))\<^sup>+"
    by blast
  then have run: "executeAnalysis ?orch job1
      = (Inl (OrchestratorError (CircularDependency n)),
         [ErrorEvent (OrchestratorError (CircularDependency n))], ?orch)
      \<and> (n, n) \<in> (dep_rel cycle_ab)\<^sup>+"
    by (simp only: same m)
  show ?thesis
    by (intro conjI exI [of _ n]) (fact | rule run [THEN conjunct1] run [THEN conjunct2])+
qed

lemma ghost_then_cycle_eq:
  "ghost_then_cycle =
     [(''x'', \<lparr>name = ''x'', phase = ''seo'', dependencies = [''ghost''],
               execute = succeed JNull\<rparr>),
      (''a'', \<lparr>name = ''a'', phase = ''seo'', dependencies = [''b''], execute = succeed JNull\<rparr>),
      (''b'', \<lparr>name = ''b'', phase = ''css'', dependencies = [''a''], execute = succeed JNull\<rparr>)]"
  by (simp add: ghost_then_cycle_def register_eval)

text \<open>
  C3 as stated fails when an unregistered dependency is met before the cycle: \<open>a\<close> and
  \<open>b\<close> depend on each other, and the run rejects with the missing-dependency error of
  \<open>x\<close>, registered first.
\<close>

theorem C3_missing_dependency_first_counterexample:
  "(''a'', ''a'') \<in> (dep_rel (modules (new_orchestrator ghost_then_cycle)))\<^sup>+
   \<and> executeAnalysis (new_orchestrator ghost_then_cycle) job1
       = (Inl (OrchestratorError (MissingDependency ''x'' ''ghost'')),
          [ErrorEvent (OrchestratorError (MissingDependency ''x'' ''ghost''))],
          new_orchestrator ghost_then_cycle)"
proof -
  have "(''a'', ''b'') \<in> dep_rel ghost_then_cycle" "(''b'', ''a'') \<in> dep_rel ghost_then_cycle"
    by (simp_all add: dep_rel_def ghost_then_cycle_eq)
  then have "(''a'', ''a'') \<in> (dep_rel ghost_then_cycle)\<^sup>+"
    by (rule trancl_into_trancl2 [OF _ r_into_trancl])
  moreover have "executeAnalysis (new_orchestrator ghost_then_cycle) job1
       = (Inl (OrchestratorError (MissingDependency ''x'' ''ghost'')),
          [ErrorEvent (OrchestratorError (MissingDependency ''x'' ''ghost''))],
          new_orchestrator ghost_then_cycle)"
    by (simp add: executeAnalysis_def outer_catch_def resolveExecutionOrder_def
        ghost_then_cycle_eq getAllModules_def modules_has_def new_orchestrator_def
        initial_run_def Let_def visit.simps)
  ultimately show ?thesis by (simp add: new_orchestrator_def)
qed

lemma ghost_only_eq:
  "ghost_only =
     [(''crawler'', \<lparr>name = ''crawler'', phase = ''crawl'', dependencies = [],
                     execute = succeed JNull\<rparr>),
      (''seo'', \<lparr>name = ''seo'', phase = ''seo'', dependencies = [''crawler'', ''ghost''],
                 execute = succeed JNull\<rparr>)]"
  by (simp add: ghost_only_def register_eval)

lemma ghost_only_acyclic: "acyclic (dep_rel ghost_only)"
proof (rule acyclicI_order [where f = "\<lambda>n. if n = ''seo'' then 1 else (0::nat)"])
  fix a b assume "(a, b) \<in> dep_rel ghost_only"
  then show "(if b = ''seo'' then 1 else (0::nat)) < (if a = ''seo'' then 1 else 0)"
    by (auto simp: dep_rel_def ghost_only_eq split: if_splits)
qed

theorem C4_missing_dependency_rejects_before_any_module_witness:
  "wf_registry (modules (new_orchestrator ghost_only))
   \<and> \<not> deps_registered (modules (new_orchestrator ghost_only))
   \<and> acyclic (dep_rel (modules (new_orchestrator ghost_only)))
   \<and> (\<exists>a d. executeAnalysis (new_orchestrator ghost_only) job1
               = (Inl (OrchestratorError (MissingDependency a d)),
                  [ErrorEvent (OrchestratorError (MissingDependency a d))],
                  new_orchestrator ghost_only)
            \<and> (a, d) \<in> dep_rel ghost_only \<and> \<not> modules_has ghost_only d)"
proof -
  let ?orch = "new_orchestrator ghost_only"
  have m: "modules ?orch = ghost_only" by (simp add: new_orchestrator_def)
  have same: "?orch\<lparr>moduleResults := Map.empty\<rparr> = ?orch" by (simp add: new_orchestrator_def)
  have wf: "wf_registry (modules ?orch)"
    by (simp add: new_orchestrator_def ghost_only_def register_all_wf)
  have deps: "\<not> deps_registered (modules ?orch)"
    by (simp add: new_orchestrator_def ghost_only_eq deps_registered_def modules_has_def)
  have acyc: "acyclic (dep_rel (modules ?orch))"
    by (simp add: m ghost_only_acyclic)
  from C4_missing_dependency_rejects_before_any_module [OF wf deps, of job1] acyc
  obtain a d where "executeAnalysis ?orch job1
      = (Inl (OrchestratorError (MissingDependency a d)),
         [ErrorEvent (OrchestratorError (MissingDependency a d))],
         ?orch\<lparr>moduleResults := Map.empty\<rparr>)"
    and "(a, d) \<in> dep_rel (modules ?orch)" and "\<not> modules_has (modules ?orch) d"
    by blast
  then have run: "executeAnalysis ?orch job1
      = (Inl (OrchestratorError (MissingDependency a d)),
         [ErrorEvent (OrchestratorError (MissingDependency a d))], ?orch)
      \<and> (a, d) \<in> dep_rel ghost_only \<and> \<not> modules_has ghost_only d"
    by (simp add: same m)
  show ?thesis
    by (intro conjI exI [of _ a] exI [of _ d])
       (fact | rule run [THEN conjunct1] run [THEN conjunct2, THEN conjunct1]
                    run [THEN conjunct2, THEN conjunct2])+
qed

lemma cycle_then_ghost_eq:
  "cycle_then_ghost =
     [(''a'', \<lparr>name = ''a'', phase = ''seo'', dependencies = [''b''], execute = succeed JNull\<rparr>),
      (''b'', \<lparr>name = ''b'', phase = ''css'', dependencies = [''a'', ''ghost''],
               execute = succeed JNull\<rparr>)]"
  by (simp add: cycle_then_ghost_def register_eval)

text \<open>
  C4 as stated fails when a cycle is closed before the unregistered dependency is
  reached: \<open>b\<close> depends on the unregistered \<open>ghost\<close>, and the run rejects with the
  circular-dependency error, which names \<open>a\<close> only.
\<close>

theorem C4_cycle_first_counterexample:
  "(''b'', ''ghost'') \<in> dep_rel (modules (new_orchestrator cycle_then_ghost))
   \<and> \<not> modules_has (modules (new_orchestrator cycle_then_ghost)) ''ghost''
   \<and> executeAnalysis (new_orchestrator cycle_then_ghost) job1
       = (Inl (OrchestratorError (CircularDependency ''a'')),
          [ErrorEvent (OrchestratorError (CircularDependency ''a''))],
          new_orchestrator cycle_then_ghost)"
  by (simp add: executeAnalysis_def outer_catch_def resolveExecutionOrder_def cycle_then_ghost_eq
      getAllModules_def modules_has_def new_orchestrator_def initial_run_def Let_def
      dep_rel_def visit.simps)

subsection \<open>C5 and C9: progress\<close>








section \<open>The cache manager: fallback and expiry\<close>

lemma cache_get_memory:
  "\<not> useRedis cm \<Longrightarrow>
     cache_get parse cm mem now reply key =
       (case memory_get parse mem now (getKey cm key) of (r, mem') \<Rightarrow> (r, cm, mem', []))"
  by (simp add: cache_get_def Let_def)

lemma cache_set_memory:
  "\<not> useRedis cm \<Longrightarrow>
     cache_set stringify cm mem now reply key v ttl =
       (cm, mem(getKey cm key \<mapsto> \<lparr>entry_value = stringify v,
                                    expires = now + ttl_or_default ttl * 1000\<rparr>), [])"
  by (simp add: cache_set_def Let_def)

lemma cache_delete_memory:
  "\<not> useRedis cm \<Longrightarrow> cache_delete cm mem reply key = (cm, mem(getKey cm key := None), [])"
  by (simp add: cache_delete_def Let_def)

lemma cache_has_memory:
  "\<not> useRedis cm \<Longrightarrow>
     cache_has cm mem now reply key =
       (case memory_has mem now (getKey cm key) of (r, mem') \<Rightarrow> (r, cm, mem', []))"
  by (simp add: cache_has_def Let_def)

lemma cache_clear_memory:
  "\<not> useRedis cm \<Longrightarrow> cache_clear cm mem keys_reply del_reply = (cm, memory_clear cm mem, [])"
  by (simp add: cache_clear_def Let_def)

lemmas cache_memory =
  cache_get_memory cache_set_memory cache_delete_memory cache_has_memory cache_clear_memory

lemma apply_op_memory:
  assumes "\<not> useRedis (manager st)"
  shows "manager (apply_op parse stringify (now, op) st) = manager st"
    and "sent (apply_op parse stringify (now, op) st) = sent st"
    and "apply_op parse stringify (now, op) st
           = apply_op parse stringify (now, without_store op) st"
  using assms by (cases op; simp add: apply_op_def cache_memory split: prod.splits)+

lemma apply_op_unreachable:
  assumes "store_unreachable op"
  shows "\<not> useRedis (manager (apply_op parse stringify (now, op) st))"
proof (cases "useRedis (manager st)")
  case False
  then show ?thesis by (simp add: apply_op_memory(1))
next
  case True
  with assms show ?thesis
    by (cases op)
       (auto simp: apply_op_def cache_get_def cache_set_def cache_delete_def cache_has_def
          cache_clear_def Let_def split: prod.splits redis_reply.splits)
qed

lemma run_ops_memory:
  assumes "\<not> useRedis (manager st)"
  shows "manager (run_ops parse stringify ops st) = manager st
         \<and> sent (run_ops parse stringify ops st) = sent st
         \<and> run_ops parse stringify ops st
             = run_ops parse stringify (map (\<lambda>(now, op). (now, without_store op)) ops) st"
  using assms
proof (induction ops arbitrary: st)
  case Nil
  then show ?case by (simp add: run_ops_def)
next
  case (Cons timed ops)
  obtain now op where timed: "timed = (now, op)" by (cases timed)
  let ?st1 = "apply_op parse stringify (now, op) st"
  note step = apply_op_memory [OF Cons.prems, of parse stringify now op]
  have off: "\<not> useRedis (manager ?st1)" using Cons.prems by (simp add: step(1))
  from Cons.IH [OF off]
  have rest: "manager (run_ops parse stringify ops ?st1) = manager ?st1"
    "sent (run_ops parse stringify ops ?st1) = sent ?st1"
    "run_ops parse stringify ops ?st1
       = run_ops parse stringify (map (\<lambda>(now, op). (now, without_store op)) ops) ?st1"
    by blast+
  have unfold: "run_ops parse stringify (timed # ops) st = run_ops parse stringify ops ?st1"
    by (simp add: run_ops_def timed)
  have "run_ops parse stringify (map (\<lambda>(now, op). (now, without_store op)) (timed # ops)) st
          = run_ops parse stringify (map (\<lambda>(now, op). (now, without_store op)) ops)
              (apply_op parse stringify (now, without_store op) st)"
    by (simp add: run_ops_def timed)
  also have "\<dots> = run_ops parse stringify (map (\<lambda>(now, op). (now, without_store op)) ops) ?st1"
    by (simp only: step(3) [symmetric])
  also have "\<dots> = run_ops parse stringify ops ?st1" by (simp only: rest(3) [symmetric])
  finally have same: "run_ops parse stringify (timed # ops) st
      = run_ops parse stringify (map (\<lambda>(now, op). (now, without_store op)) (timed # ops)) st"
    by (simp only: unfold)
  have "manager (run_ops parse stringify (timed # ops) st) = manager st"
    by (simp only: unfold rest(1) step(1))
  moreover have "sent (run_ops parse stringify (timed # ops) st) = sent st"
    by (simp only: unfold rest(2) step(2))
  ultimately show ?case using same by blast
qed

text \<open>
  C8. Once an operation of a manager has found the store unreachable, \<open>useRedis\<close> is
  false and stays false: whatever operations follow, and whatever the store would
  answer, they send it no command, and they leave the manager, the memory cache and
  their results exactly as they would with a store that is never there.
\<close>

theorem C8_no_contact_after_fallback:
  assumes "store_unreachable op"
  shows "\<not> useRedis (manager (apply_op parse stringify (now, op) st))
         \<and> \<not> useRedis (manager (run_ops parse stringify ops
                                   (apply_op parse stringify (now, op) st)))
         \<and> sent (run_ops parse stringify ops (apply_op parse stringify (now, op) st))
             = sent (apply_op parse stringify (now, op) st)
         \<and> run_ops parse stringify ops (apply_op parse stringify (now, op) st)
             = run_ops parse stringify (map (\<lambda>(now, op). (now, without_store op)) ops)
                 (apply_op parse stringify (now, op) st)"
proof -
  have off: "\<not> useRedis (manager (apply_op parse stringify (now, op) st))"
    using assms by (rule apply_op_unreachable)
  from run_ops_memory [OF off, of parse stringify ops]
  have "manager (run_ops parse stringify ops (apply_op parse stringify (now, op) st))
          = manager (apply_op parse stringify (now, op) st)"
    and "sent (run_ops parse stringify ops (apply_op parse stringify (now, op) st))
          = sent (apply_op parse stringify (now, op) st)"
    and "run_ops parse stringify ops (apply_op parse stringify (now, op) st)
          = run_ops parse stringify (map (\<lambda>(now, op). (now, without_store op)) ops)
              (apply_op parse stringify (now, op) st)"
    by blast+
  with off show ?thesis by (simp only:) blast
qed

theorem C8_no_contact_after_fallback_witness:
  "store_unreachable (Get ''k'' RedisFailure :: string cache_op)
   \<and> \<not> useRedis (manager (apply_op parse_string stringify_string (0, Get ''k'' RedisFailure)
                             (fresh_state (createCacheManager ''analysis:job-1''))))
   \<and> sent (run_ops parse_string stringify_string
             [(1, Set ''k'' ''v'' (Some 5) (RedisReply ())),
              (2, Get ''k'' (RedisReply (Some ''stale''))),
              (3, Has ''k'' (RedisReply 1)),
              (4, Clear (RedisReply [''analysis:job-1:k'']) (RedisReply ())),
              (5, Delete ''k'' (RedisReply ()))]
             (apply_op parse_string stringify_string (0, Get ''k'' RedisFailure)
                (fresh_state (createCacheManager ''analysis:job-1''))))
       = [GET ''analysis:job-1:k'']"
proof -
  let ?st = "fresh_state (createCacheManager ''analysis:job-1'')"
  have a: "store_unreachable (Get ''k'' RedisFailure :: string cache_op)" by simp
  have "sent (apply_op parse_string stringify_string (0, Get ''k'' RedisFailure) ?st)
          = [GET ''analysis:job-1:k'']"
    by (simp add: apply_op_def cache_get_def memory_get_def fresh_state_def
        createCacheManager_def getKey_def Let_def)
  with C8_no_contact_after_fallback [OF a, of parse_string stringify_string 0 ?st] a
  show ?thesis by simp
qed

subsection \<open>Expiry in the memory cache\<close>

lemma default_ttl: "ttl_or_default None = 3600"
  by (simp add: ttl_or_default_def)

text \<open>
  On the memory cache, an entry set with a TTL of \<open>t \<noteq> 0\<close> seconds (or with none, which
  is 3600 seconds) is absent once more than that time has passed.
\<close>

lemma memory_entry_expires:
  assumes "\<not> useRedis cm"
    and "cache_set stringify cm mem now reply key v ttl = (cm', mem', cmds)"
    and "now + ttl_or_default ttl * 1000 < later"
  shows "fst (cache_get parse cm' mem' later reply' key) = None"
    and "fst (cache_has cm' mem' later reply'' key) = False"
  using assms
  by (auto simp: cache_memory memory_get_def memory_has_def)

text \<open>
  C6, the part the code breaks. With \<open>ttl: 0\<close> the entry is given the default of 3600
  seconds: one second after \<open>set("k", "v", {ttl: 0})\<close> on a manager that has fallen back
  to the memory cache, \<open>get("k")\<close> returns the value and \<open>has("k")\<close> returns true.
\<close>

theorem C6_zero_ttl_entry_is_kept:
  "returned (run_ops parse_string stringify_string
      [(0, Set ''k'' ''v'' (Some 0) RedisFailure),
       (1000, Get ''k'' RedisFailure),
       (1000, Has ''k'' RedisFailure)]
      (fresh_state fallen_back))
     = [Done, GetResult (Some ''v''), HasResult True]
   \<and> sent (apply_op parse_string stringify_string (0, Set ''k'' ''v'' (Some 0) (RedisReply ()))
             (fresh_state (createCacheManager ''analysis:job-1'')))
     = [SETEX ''analysis:job-1:k'' 3600 (stringify_string ''v'')]"
  by (simp add: run_ops_def apply_op_def cache_memory cache_set_def fallen_back_def
      fresh_state_def createCacheManager_def getKey_def memory_get_def memory_has_def
      ttl_or_default_def parse_string_def stringify_string_def quoted_def Let_def)

subsection \<open>C5 on 40 modules and C9 on 201 modules\<close>













end
